theory Spec2Isabelle
  imports Main "HOL-Library.Sublist"
begin

section \<open>init_ddk.py: the marker block updater and the download guard\<close>

subsection \<open>Constants\<close>

definition LF :: char where
  "LF = CHR 0x0A"

definition CR :: char where
  "CR = CHR 0x0D"

definition FILE_MARKER_BEGIN :: string where
  "FILE_MARKER_BEGIN = ''### GENERATED SECTION - DO NOT MODIFY - BEGIN ###'' @ [LF]"

definition FILE_MARKER_END :: string where
  "FILE_MARKER_END = ''### GENERATED SECTION - DO NOT MODIFY - END ###'' @ [LF]"

subsection \<open>Reading a text file line by line\<close>

text \<open>
  The input is opened in text mode with the default \<open>newline=None\<close>: the line endings
  CR LF and CR are translated to LF, and iterating over the file yields the pieces that
  end after each LF, the last piece being whatever follows the final LF (if anything).
  The output file is a text file too; what is written to it is stored as it is (the
  line separator of the platform is taken to be LF). A \<open>char\<close> stands for one character
  of the text; the encodings of the two files are not modelled, nor are failures of the
  file system.
\<close>

fun universal_newlines :: "string \<Rightarrow> string" where
  "universal_newlines [] = []"
| "universal_newlines [c] = (if c = CR then [LF] else [c])"
| "universal_newlines (c # d # cs) =
     (if c = CR then (if d = LF then LF # universal_newlines cs
                      else LF # universal_newlines (d # cs))
      else c # universal_newlines (d # cs))"

fun split_lines :: "string \<Rightarrow> string list" where
  "split_lines [] = []"
| "split_lines (c # cs) =
     (if c = LF then [LF] # split_lines cs
      else (case split_lines cs of [] \<Rightarrow> [[c]] | l # ls \<Rightarrow> (c # l) # ls))"

definition read_lines :: "string \<Rightarrow> string list" where
  "read_lines content = split_lines (universal_newlines content)"

subsection \<open>The scanning loop of \<open>_update_file\<close>\<close>

text \<open>Python's \<open>sub in line\<close> on strings: \<open>sub\<close> occurs as a contiguous piece.\<close>

definition py_in :: "string \<Rightarrow> string \<Rightarrow> bool" where
  "py_in sub line = sublist sub line"

record scan_state =
  add_content :: bool
  skip_line :: bool
  update_written :: bool
  written :: "string list"

text \<open>
  \<open>written\<close> is the sequence of strings passed to \<open>output_file.write\<close>, in order; the
  content of the temporary file is their concatenation.
\<close>

definition initial_state :: scan_state where
  "initial_state =
     \<lparr>add_content = False, skip_line = False, update_written = False, written = []\<rparr>"

definition loop_body :: "string \<Rightarrow> scan_state \<Rightarrow> string \<Rightarrow> scan_state" where
  "loop_body update st line =
     (let st1 = (if add_content st
                 then st\<lparr>written := written st @ [FILE_MARKER_BEGIN, update @ [LF]],
                         update_written := True, add_content := False\<rparr>
                 else st);
          st2 = (if py_in FILE_MARKER_END line then st1\<lparr>skip_line := False\<rparr> else st1);
          st3 = (if py_in FILE_MARKER_BEGIN line
                 then st2\<lparr>skip_line := True, add_content := True\<rparr> else st2)
      in (if \<not> skip_line st3 then st3\<lparr>written := written st3 @ [line]\<rparr> else st3))"

definition scan :: "string \<Rightarrow> string list \<Rightarrow> scan_state" where
  "scan update input_lines = foldl (loop_body update) initial_state input_lines"

definition all_writes :: "string list \<Rightarrow> string \<Rightarrow> string list" where
  "all_writes input_lines update =
     (let st = scan update input_lines
      in (if \<not> update_written st
          then written st @ [FILE_MARKER_BEGIN, update @ [LF], FILE_MARKER_END]
          else written st))"

definition new_content :: "string \<Rightarrow> string \<Rightarrow> string" where
  "new_content old update = concat (all_writes (read_lines old) update)"

subsection \<open>The file operations of \<open>_update_file\<close>\<close>

type_synonym path = string
type_synonym filesystem = "path \<rightharpoonup> string"

datatype fs_op =
    OpenCreate path
  | NewTempFile path
  | Write path string
  | Move path path

fun apply_op :: "filesystem \<Rightarrow> fs_op \<Rightarrow> filesystem" where
  "apply_op fs (OpenCreate p) = (case fs p of None \<Rightarrow> fs(p \<mapsto> []) | Some c \<Rightarrow> fs)"
| "apply_op fs (NewTempFile p) = fs(p \<mapsto> [])"
| "apply_op fs (Write p s) = (case fs p of None \<Rightarrow> fs(p \<mapsto> s) | Some c \<Rightarrow> fs(p \<mapsto> c @ s))"
| "apply_op fs (Move src dst) = (case fs src of None \<Rightarrow> fs | Some c \<Rightarrow> (fs(src := None))(dst \<mapsto> c))"

text \<open>
  \<open>tmp\<close> is the name \<open>tempfile.NamedTemporaryFile\<close> picks. A path that exists is opened
  with mode \<open>r\<close>; a missing one with \<open>a+\<close>, which creates it empty and leaves the read
  position at its end, so that the loop sees no line.
\<close>

definition input_lines_of :: "filesystem \<Rightarrow> path \<Rightarrow> string list" where
  "input_lines_of fs p = (case fs p of None \<Rightarrow> [] | Some c \<Rightarrow> read_lines c)"

definition update_file_ops :: "filesystem \<Rightarrow> path \<Rightarrow> path \<Rightarrow> string \<Rightarrow> fs_op list" where
  "update_file_ops fs tmp p update =
     (case fs p of None \<Rightarrow> [OpenCreate p] | Some c \<Rightarrow> [])
     @ [NewTempFile tmp]
     @ map (Write tmp) (all_writes (input_lines_of fs p) update)
     @ [Move tmp p]"

definition update_file :: "filesystem \<Rightarrow> path \<Rightarrow> path \<Rightarrow> string \<Rightarrow> filesystem" where
  "update_file fs tmp p update = foldl apply_op fs (update_file_ops fs tmp p update)"

text \<open>
  The block under \<open>if add_content:\<close> at the head of the loop body, on its own: it writes
  the begin marker and the replacement that the previous line asked for.
\<close>

definition flush :: "string \<Rightarrow> scan_state \<Rightarrow> scan_state" where
  "flush update st =
     (if add_content st
      then st\<lparr>written := written st @ [FILE_MARKER_BEGIN, update @ [LF]],
              update_written := True, add_content := False\<rparr>
      else st)"

subsection \<open>Notions used to state the properties\<close>

text \<open>
  A line is a marker line when one of the two marker tests of the loop holds for it. The
  replacement is written as \<open>update + "\\n"\<close>; \<open>marker_free\<close> says that none of the
  lines it is read back as is a marker line.
\<close>

definition no_marker_lines :: "string list \<Rightarrow> bool" where
  "no_marker_lines ls =
     list_all (\<lambda>l. \<not> py_in FILE_MARKER_BEGIN l \<and> \<not> py_in FILE_MARKER_END l) ls"

definition marker_free :: "string \<Rightarrow> bool" where
  "marker_free update = no_marker_lines (read_lines (update @ [LF]))"

definition ends_with_newline :: "string list \<Rightarrow> bool" where
  "ends_with_newline ls = (ls = [] \<or> last (last ls) = LF)"

text \<open>
  The lines have no marker line at all, or exactly one begin-marker line and exactly one
  end-marker line, the begin-marker line first.
\<close>

definition at_most_one_section :: "string list \<Rightarrow> bool" where
  "at_most_one_section ls =
     (let nb = length (filter (py_in FILE_MARKER_BEGIN) ls);
          ne = length (filter (py_in FILE_MARKER_END) ls)
      in (nb = 0 \<and> ne = 0)
         \<or> (nb = 1 \<and> ne = 1
            \<and> length (takeWhile (\<lambda>l. \<not> py_in FILE_MARKER_BEGIN l) ls)
                < length (takeWhile (\<lambda>l. \<not> py_in FILE_MARKER_END l) ls)))"

text \<open>
  The lines outside a section, as the two states of the scan describe them: a
  begin-marker line starts the skipping and is dropped, an end-marker line ends it and is
  kept, any other line is kept when the scan is not skipping. The flag says whether the
  scan is skipping at the start.
\<close>

fun kept_lines :: "bool \<Rightarrow> string list \<Rightarrow> string list" where
  "kept_lines skipping [] = []"
| "kept_lines skipping (l # ls) =
     (if py_in FILE_MARKER_BEGIN l then kept_lines True ls
      else if py_in FILE_MARKER_END l then l # kept_lines False ls
      else if skipping then kept_lines True ls
      else l # kept_lines False ls)"

text \<open>
  \<open>replays u s\<close>: running the loop over the lines of what state \<open>s\<close> has written so far
  writes the same again and ends in a state that agrees with \<open>s\<close>.
\<close>

definition replays :: "string \<Rightarrow> scan_state \<Rightarrow> bool" where
  "replays u s1 =
     (let s2 = scan u (concat (map read_lines (written s1)))
      in written s2 = written s1 \<and> update_written s2 = update_written s1
         \<and> \<not> add_content s2
         \<and> (\<not> add_content s1 \<longrightarrow> skip_line s2 = skip_line s1)
         \<and> (add_content s1 \<longrightarrow> skip_line s1))"

subsection \<open>\<open>_get_url\<close> and \<open>_download\<close>\<close>

text \<open>
  \<open>str.format\<close>, \<open>urllib.parse.quote\<close> and the helper process are not part of the
  program: the formatter, the quoting function and the exit code of the helper are
  parameters. A formatter takes the format string and the keyword arguments
  \<open>build_id\<close>, \<open>build_target\<close>, \<open>filename\<close>, and returns the text or the exception.
  What has type \<open>str | None\<close> is a \<open>string option\<close>; it is false in a condition when
  it is \<open>None\<close> or the empty string. \<open>subprocess.check_call\<close> raises when the exit code
  is not zero. The test \<open>not url\<close> holds for \<open>None\<close> and for the empty string.
\<close>

datatype py_exception =
    AttributeError
  | ValueError
  | KeyError string
  | CalledProcessError int

record KleafProjectSetter =
  build_id :: "string option"
  build_target :: "string option"
  ddk_workspace :: "path option"
  local :: bool
  kleaf_repo :: "path option"
  prebuilts_dir :: "path option"
  url_fmt :: "string option"

definition truthy :: "string option \<Rightarrow> bool" where
  "truthy v = (case v of None \<Rightarrow> False | Some s \<Rightarrow> s \<noteq> [])"

type_synonym formatter =
  "string \<Rightarrow> string option \<Rightarrow> string option \<Rightarrow> string \<Rightarrow> py_exception + string"

definition FAKE_BUILD_ID :: string where
  "FAKE_BUILD_ID = ''__FAKE_BUILD_NUMBER_PLACEHOLDER__''"

definition get_url ::
  "formatter \<Rightarrow> (string \<Rightarrow> string) \<Rightarrow> KleafProjectSetter \<Rightarrow> string \<Rightarrow> py_exception + string option" where
  "get_url format quote self remote_filename =
     (case url_fmt self of
        None \<Rightarrow> Inl AttributeError
      | Some f \<Rightarrow>
          (case format f (build_id self) (build_target self) (quote remote_filename) of
             Inl e \<Rightarrow> Inl e
           | Inr url \<Rightarrow>
               (case format f (Some FAKE_BUILD_ID) (build_target self) (quote remote_filename) of
                  Inl e \<Rightarrow> Inl e
                | Inr url_with_fake_id \<Rightarrow>
                    (if \<not> truthy (build_id self) \<and> url \<noteq> url_with_fake_id then Inr None
                     else Inr (Some url)))))"

record download_effects =
  errors_logged :: "string list"
  subprocess_calls :: "string list list"

definition build_id_missing :: "string \<Rightarrow> download_effects" where
  "build_id_missing remote_filename =
     \<lparr>errors_logged =
        [''Unable to download '' @ remote_filename @ '' file because --build_id is missing.''],
      subprocess_calls = []\<rparr>"

definition download ::
  "formatter \<Rightarrow> (string \<Rightarrow> string) \<Rightarrow> (string list \<Rightarrow> int) \<Rightarrow> path \<Rightarrow>
   KleafProjectSetter \<Rightarrow> string \<Rightarrow> string \<Rightarrow> py_exception + download_effects" where
  "download format quote check_call script_dir self remote_filename out_file_name =
     (if \<not> truthy (url_fmt self)
      then Inr \<lparr>errors_logged =
                  [''Unable to download file '' @ remote_filename @ '' because --url_fmt was not set.''],
                subprocess_calls = []\<rparr>
      else (case get_url format quote self remote_filename of
              Inl e \<Rightarrow> Inl e
            | Inr None \<Rightarrow> Inr (build_id_missing remote_filename)
            | Inr (Some url) \<Rightarrow>
                (if url = [] then Inr (build_id_missing remote_filename)
                 else (let argv = [''python3'', script_dir @ ''/init_download.py'', url, out_file_name]
                       in (if check_call argv \<noteq> 0 then Inl (CalledProcessError (check_call argv))
                           else Inr \<lparr>errors_logged = [], subprocess_calls = [argv]\<rparr>)))))"

text \<open>
  \<open>simple_format\<close> is one formatter: the part of \<open>str.format\<close> with plain named
  fields and doubled braces. It serves as a concrete instance; the theorems below hold for
  every formatter.
\<close>

definition py_str :: "string option \<Rightarrow> string" where
  "py_str v = (case v of None \<Rightarrow> ''None'' | Some s \<Rightarrow> s)"

definition field_value :: "string option \<Rightarrow> string option \<Rightarrow> string \<Rightarrow> string \<Rightarrow> py_exception + string" where
  "field_value bid target filename name =
     (if name = ''build_id'' then Inr (py_str bid)
      else if name = ''build_target'' then Inr (py_str target)
      else if name = ''filename'' then Inr filename
      else Inl (KeyError name))"

definition prepend :: "string \<Rightarrow> py_exception + string \<Rightarrow> py_exception + string" where
  "prepend s r = (case r of Inl e \<Rightarrow> Inl e | Inr t \<Rightarrow> Inr (s @ t))"

fun format_fields ::
  "(string \<Rightarrow> py_exception + string) \<Rightarrow> string option \<Rightarrow> string \<Rightarrow> py_exception + string" where
  "format_fields val None [] = Inr []"
| "format_fields val (Some n) [] = Inl ValueError"
| "format_fields val (Some n) (c # cs) =
     (if c = CHR ''}''
      then (case val n of Inl e \<Rightarrow> Inl e | Inr v \<Rightarrow> prepend v (format_fields val None cs))
      else format_fields val (Some (n @ [c])) cs)"
| "format_fields val None [c] =
     (if c = CHR ''{'' \<or> c = CHR ''}'' then Inl ValueError else Inr [c])"
| "format_fields val None (c # d # cs) =
     (if c = CHR ''{''
      then (if d = CHR ''{'' then prepend [c] (format_fields val None cs)
            else format_fields val (Some []) (d # cs))
      else if c = CHR ''}''
      then (if d = CHR ''}'' then prepend [c] (format_fields val None cs) else Inl ValueError)
      else prepend [c] (format_fields val None (d # cs)))"

definition simple_format :: formatter where
  "simple_format f bid target filename = format_fields (field_value bid target filename) None f"

definition example_setter :: KleafProjectSetter where
  "example_setter = \<lparr>build_id = None, build_target = Some ''kernel_aarch64'', ddk_workspace = None,
     local = False, kleaf_repo = None, prebuilts_dir = None,
     url_fmt = Some ''https://ci/{build_id}/{build_target}/{filename}''\<rparr>"

text \<open>
  One quoting function for the examples: what \<open>urllib.parse.quote(s, safe="")\<close> does to a
  name made of letters, digits, dots, dashes, underscores and slashes.
\<close>

definition quote_slash :: "string \<Rightarrow> string" where
  "quote_slash s = concat (map (\<lambda>c. if c = CHR ''/'' then ''%2F'' else [c]) s)"

section \<open>Lines\<close>

lemma concat_split_lines: "concat (split_lines s) = s"
  by (induction s) (auto split: list.splits)

lemma split_lines_Nil_iff: "split_lines s = [] \<longleftrightarrow> s = []"
  by (cases s) (auto split: list.splits)

lemma split_lines_nonempty: "l \<in> set (split_lines s) \<Longrightarrow> l \<noteq> []"
  by (induction s arbitrary: l) (auto split: list.splits if_splits)

lemma split_lines_Cons_nonempty: "split_lines s = l # ls \<Longrightarrow> l \<noteq> []"
  using split_lines_nonempty [of l s] by simp

lemma split_lines_inner: "l \<in> set (split_lines s) \<Longrightarrow> LF \<notin> set (butlast l)"
  by (induction s arbitrary: l) (auto split: list.splits if_splits)

lemma split_lines_butlast_terminated:
  "l \<in> set (butlast (split_lines s)) \<Longrightarrow> last l = LF"
  by (induction s arbitrary: l)
     (auto split: list.splits if_splits simp: split_lines_Nil_iff dest: split_lines_Cons_nonempty)

lemma split_lines_last_terminated:
  "s \<noteq> [] \<Longrightarrow> last s = LF \<Longrightarrow> l \<in> set (split_lines s) \<Longrightarrow> last l = LF"
  by (induction s arbitrary: l)
     (auto split: list.splits if_splits simp: split_lines_Nil_iff dest: split_lines_Cons_nonempty)

lemma split_lines_append:
  "s = [] \<or> last s = LF \<Longrightarrow> split_lines (s @ t) = split_lines s @ split_lines t"
  by (induction s) (auto split: list.splits if_splits simp: split_lines_Nil_iff)


lemma split_lines_single:
  "l \<noteq> [] \<Longrightarrow> LF \<notin> set (butlast l) \<Longrightarrow> split_lines l = [l]"
  by (induction l) (auto split: list.splits if_splits simp: split_lines_Nil_iff)

lemma universal_newlines_no_CR: "CR \<notin> set (universal_newlines s)"
  by (induction s rule: universal_newlines.induct) (auto simp: LF_def CR_def)

lemma universal_newlines_id: "CR \<notin> set s \<Longrightarrow> universal_newlines s = s"
  by (induction s rule: universal_newlines.induct) auto

lemma universal_newlines_Nil_iff: "universal_newlines s = [] \<longleftrightarrow> s = []"
  by (induction s rule: universal_newlines.induct) auto

lemma universal_newlines_append:
  "s = [] \<or> last s \<noteq> CR \<Longrightarrow>
   universal_newlines (s @ t) = universal_newlines s @ universal_newlines t"
proof (induction s rule: universal_newlines.induct)
  case 1
  then show ?case by simp
next
  case (2 c)
  then show ?case by (cases t) auto
next
  case (3 c d cs)
  then show ?case by (auto split: if_splits)
qed

lemma universal_newlines_last:
  "s \<noteq> [] \<Longrightarrow> last s = LF \<Longrightarrow> last (universal_newlines s) = LF"
  by (induction s rule: universal_newlines.induct)
     (auto split: if_splits simp: universal_newlines_Nil_iff)

lemma read_lines_append:
  assumes "s = [] \<or> last s = LF"
  shows "read_lines (s @ t) = read_lines s @ read_lines t"
proof (cases "s = []")
  case True
  then show ?thesis by (simp add: read_lines_def)
next
  case False
  with assms have l: "last s = LF" by simp
  then have "last s \<noteq> CR" by (simp add: LF_def CR_def)
  then have "universal_newlines (s @ t) = universal_newlines s @ universal_newlines t"
    by (simp add: universal_newlines_append)
  moreover have "last (universal_newlines s) = LF"
    using False l by (rule universal_newlines_last)
  ultimately show ?thesis
    by (simp add: read_lines_def split_lines_append)
qed

lemma read_lines_nonempty: "l \<in> set (read_lines s) \<Longrightarrow> l \<noteq> []"
  by (auto simp: read_lines_def dest: split_lines_nonempty)

lemma read_lines_inner: "l \<in> set (read_lines s) \<Longrightarrow> LF \<notin> set (butlast l)"
  unfolding read_lines_def by (rule split_lines_inner)

lemma read_lines_no_CR: "l \<in> set (read_lines s) \<Longrightarrow> CR \<notin> set l"
proof
  assume a: "l \<in> set (read_lines s)" and b: "CR \<in> set l"
  then have "CR \<in> set (concat (split_lines (universal_newlines s)))"
    by (auto simp: read_lines_def)
  then show False by (simp add: concat_split_lines universal_newlines_no_CR)
qed

lemma read_lines_line:
  "l \<noteq> [] \<Longrightarrow> CR \<notin> set l \<Longrightarrow> LF \<notin> set (butlast l) \<Longrightarrow> read_lines l = [l]"
  by (simp add: read_lines_def universal_newlines_id split_lines_single)

lemma read_lines_idem: "l \<in> set (read_lines s) \<Longrightarrow> read_lines l = [l]"
  by (simp add: read_lines_line read_lines_nonempty read_lines_inner read_lines_no_CR)

lemma read_lines_concat:
  "\<forall>c \<in> set (butlast cs). c = [] \<or> last c = LF \<Longrightarrow>
   read_lines (concat cs) = concat (map read_lines cs)"
proof (induction cs)
  case Nil
  then show ?case by (simp add: read_lines_def)
next
  case (Cons c cs)
  show ?case
  proof (cases "cs = []")
    case True
    then show ?thesis by simp
  next
    case False
    with Cons.prems have c: "c = [] \<or> last c = LF"
      and r: "\<forall>c \<in> set (butlast cs). c = [] \<or> last c = LF" by auto
    from Cons.IH [OF r] c show ?thesis by (simp add: read_lines_append)
  qed
qed

section \<open>The loop\<close>

lemma flush_simps [simp]:
  "add_content (flush u st) = False"
  "skip_line (flush u st) = skip_line st"
  "update_written (flush u st) = (update_written st \<or> add_content st)"
  "written (flush u st) =
     written st @ (if add_content st then [FILE_MARKER_BEGIN, u @ [LF]] else [])"
  by (simp_all add: flush_def)

lemma loop_body_begin:
  "py_in FILE_MARKER_BEGIN l \<Longrightarrow>
   loop_body u st l = (flush u st)\<lparr>skip_line := True, add_content := True\<rparr>"
  by (simp add: loop_body_def flush_def Let_def)

lemma loop_body_end:
  "\<not> py_in FILE_MARKER_BEGIN l \<Longrightarrow> py_in FILE_MARKER_END l \<Longrightarrow>
   loop_body u st l =
     (flush u st)\<lparr>skip_line := False, written := written (flush u st) @ [l]\<rparr>"
  by (simp add: loop_body_def flush_def Let_def)

lemma loop_body_plain:
  "\<not> py_in FILE_MARKER_BEGIN l \<Longrightarrow> \<not> py_in FILE_MARKER_END l \<Longrightarrow>
   loop_body u st l =
     (if skip_line st then flush u st
      else (flush u st)\<lparr>written := written (flush u st) @ [l]\<rparr>)"
  by (simp add: loop_body_def flush_def Let_def)

lemma copy_lines:
  "\<not> add_content st \<Longrightarrow> \<not> skip_line st \<Longrightarrow> \<forall>l \<in> set ls. \<not> py_in FILE_MARKER_BEGIN l \<Longrightarrow>
   foldl (loop_body u) st ls = st\<lparr>written := written st @ ls\<rparr>"
proof (induction ls arbitrary: st)
  case Nil
  then show ?case by simp
next
  case (Cons l ls)
  let ?st = "st\<lparr>written := written st @ [l]\<rparr>"
  from Cons.prems have "loop_body u st l = ?st"
    by (cases "py_in FILE_MARKER_END l") (simp_all add: loop_body_end loop_body_plain flush_def)
  moreover from Cons.prems have "foldl (loop_body u) ?st ls = ?st\<lparr>written := written ?st @ ls\<rparr>"
    by (intro Cons.IH) simp_all
  ultimately show ?case by simp
qed

lemma skip_lines:
  "\<not> add_content st \<Longrightarrow> skip_line st \<Longrightarrow>
   \<forall>l \<in> set ls. \<not> py_in FILE_MARKER_BEGIN l \<and> \<not> py_in FILE_MARKER_END l \<Longrightarrow>
   foldl (loop_body u) st ls = st"
proof (induction ls)
  case Nil
  then show ?case by simp
next
  case (Cons l ls)
  then have "loop_body u st l = st" by (simp add: loop_body_plain flush_def)
  with Cons show ?case by simp
qed

lemma skip_body:
  assumes "add_content st" "skip_line st" "ls \<noteq> []"
    and "\<forall>l \<in> set ls. \<not> py_in FILE_MARKER_BEGIN l \<and> \<not> py_in FILE_MARKER_END l"
  shows "foldl (loop_body u) st ls = flush u st"
proof -
  from assms(3) obtain l ls' where ls: "ls = l # ls'" by (cases ls) auto
  with assms have "loop_body u st l = flush u st" by (simp add: loop_body_plain)
  moreover have "foldl (loop_body u) (flush u st) ls' = flush u st"
    using assms ls by (intro skip_lines) simp_all
  ultimately show ?thesis by (simp add: ls)
qed

lemma begin_not_end: "\<not> py_in FILE_MARKER_END FILE_MARKER_BEGIN"
  by code_simp

lemma end_not_begin: "\<not> py_in FILE_MARKER_BEGIN FILE_MARKER_END"
  by code_simp

lemma begin_is_begin: "py_in FILE_MARKER_BEGIN FILE_MARKER_BEGIN"
  by (simp add: py_in_def)

lemma end_is_end: "py_in FILE_MARKER_END FILE_MARKER_END"
  by (simp add: py_in_def)

lemma scan_section:
  assumes pre: "\<forall>l \<in> set pre. \<not> py_in FILE_MARKER_BEGIN l"
    and b: "py_in FILE_MARKER_BEGIN b"
    and body: "\<forall>l \<in> set body. \<not> py_in FILE_MARKER_BEGIN l \<and> \<not> py_in FILE_MARKER_END l"
    and e: "py_in FILE_MARKER_END e" "\<not> py_in FILE_MARKER_BEGIN e"
  shows "foldl (loop_body u) initial_state (pre @ [b] @ body @ [e]) =
         \<lparr>add_content = False, skip_line = False, update_written = True,
          written = pre @ [FILE_MARKER_BEGIN, u @ [LF], e]\<rparr>"
proof -
  let ?s0 = "initial_state\<lparr>written := pre\<rparr>"
  let ?s1 = "?s0\<lparr>skip_line := True, add_content := True\<rparr>"
  have 1: "foldl (loop_body u) initial_state pre = ?s0"
    using copy_lines [of initial_state pre u] pre by (simp add: initial_state_def)
  have 2: "loop_body u ?s0 b = ?s1"
    using b by (simp add: loop_body_begin flush_def initial_state_def)
  have 3: "foldl (loop_body u) ?s1 body = (if body = [] then ?s1 else flush u ?s1)"
    using skip_body [of ?s1 body u] body by (simp add: initial_state_def)
  have 4: "loop_body u (if body = [] then ?s1 else flush u ?s1) e =
           \<lparr>add_content = False, skip_line = False, update_written = True,
            written = pre @ [FILE_MARKER_BEGIN, u @ [LF], e]\<rparr>"
    using e by (simp add: loop_body_end flush_def initial_state_def)
  have "foldl (loop_body u) initial_state (pre @ [b] @ body @ [e]) =
        loop_body u (foldl (loop_body u) (loop_body u (foldl (loop_body u) initial_state pre) b) body) e"
    by simp
  also have "\<dots> = loop_body u (foldl (loop_body u) (loop_body u ?s0 b) body) e"
    by (simp only: 1)
  also have "\<dots> = loop_body u (foldl (loop_body u) ?s1 body) e"
    by (simp only: 2)
  also have "\<dots> = loop_body u (if body = [] then ?s1 else flush u ?s1) e"
    by (simp only: 3)
  finally show ?thesis by (simp only: 4)
qed

lemma marker_has_LF:
  assumes "mk = m @ [LF]" and "py_in mk l" shows "LF \<in> set l"
proof -
  from assms obtain ps ss where "l = ps @ (m @ [LF]) @ ss"
    by (auto simp: py_in_def sublist_def)
  then show ?thesis by simp
qed

lemma marker_suffix:
  assumes mk: "mk = m @ [LF]" and "LF \<notin> set (butlast l)" and "py_in mk l"
  shows "suffix mk l"
proof -
  from assms obtain ps ss where l: "l = ps @ (m @ [LF]) @ ss"
    by (auto simp: py_in_def sublist_def)
  have "ss = []"
  proof (rule ccontr)
    assume "ss \<noteq> []"
    then have "butlast l = ps @ m @ [LF] @ butlast ss"
      by (simp add: l butlast_append)
    with assms(2) show False by simp
  qed
  with l mk show ?thesis by (simp add: suffix_def)
qed

lemma markers_no_common_suffix:
  "\<not> suffix FILE_MARKER_BEGIN FILE_MARKER_END" "\<not> suffix FILE_MARKER_END FILE_MARKER_BEGIN"
  by code_simp+

lemma line_not_both:
  assumes "LF \<notin> set (butlast l)" and "py_in FILE_MARKER_BEGIN l"
  shows "\<not> py_in FILE_MARKER_END l"
proof
  assume "py_in FILE_MARKER_END l"
  with assms have "suffix FILE_MARKER_BEGIN l" "suffix FILE_MARKER_END l"
    by (auto intro: marker_suffix [OF FILE_MARKER_BEGIN_def] marker_suffix [OF FILE_MARKER_END_def])
  then have "suffix FILE_MARKER_BEGIN FILE_MARKER_END \<or> suffix FILE_MARKER_END FILE_MARKER_BEGIN"
    by (rule suffix_same_cases)
  then show False by (simp add: markers_no_common_suffix)
qed

lemma no_LF_no_marker:
  "LF \<notin> set l \<Longrightarrow> \<not> py_in FILE_MARKER_BEGIN l \<and> \<not> py_in FILE_MARKER_END l"
  by (auto dest: marker_has_LF [OF FILE_MARKER_BEGIN_def] marker_has_LF [OF FILE_MARKER_END_def])

lemma all_writes_section:
  assumes pre: "\<forall>l \<in> set pre. \<not> py_in FILE_MARKER_BEGIN l"
    and b: "py_in FILE_MARKER_BEGIN b"
    and body: "\<forall>l \<in> set body. \<not> py_in FILE_MARKER_BEGIN l \<and> \<not> py_in FILE_MARKER_END l"
    and e: "py_in FILE_MARKER_END e" "\<not> py_in FILE_MARKER_BEGIN e"
    and post: "\<forall>l \<in> set post. \<not> py_in FILE_MARKER_BEGIN l"
  shows "all_writes (pre @ [b] @ body @ [e] @ post) u =
         pre @ [FILE_MARKER_BEGIN, u @ [LF], e] @ post"
proof -
  let ?s = "\<lparr>add_content = False, skip_line = False, update_written = True,
             written = pre @ [FILE_MARKER_BEGIN, u @ [LF], e]\<rparr>"
  have "scan u (pre @ [b] @ body @ [e] @ post) =
        foldl (loop_body u) (foldl (loop_body u) initial_state (pre @ [b] @ body @ [e])) post"
    by (simp add: scan_def)
  also have "\<dots> = foldl (loop_body u) ?s post"
    by (simp only: scan_section [OF pre b body e])
  also have "\<dots> = ?s\<lparr>written := written ?s @ post\<rparr>"
    using post by (intro copy_lines) simp_all
  finally show ?thesis by (simp add: all_writes_def)
qed

lemma all_writes_no_begin:
  assumes "\<forall>l \<in> set ls. \<not> py_in FILE_MARKER_BEGIN l"
  shows "all_writes ls u = ls @ [FILE_MARKER_BEGIN, u @ [LF], FILE_MARKER_END]"
proof -
  have "scan u ls = initial_state\<lparr>written := written initial_state @ ls\<rparr>"
    unfolding scan_def using assms by (intro copy_lines) (simp_all add: initial_state_def)
  then show ?thesis by (simp add: all_writes_def initial_state_def)
qed

lemma foldl_writes:
  "fs tmp = Some c \<Longrightarrow> tmp \<noteq> p \<Longrightarrow>
   foldl apply_op fs (map (Write tmp) ws) = fs(tmp \<mapsto> c @ concat ws)"
  by (induction ws arbitrary: fs c) auto

lemma update_file_result:
  assumes "tmp \<noteq> p"
  shows "update_file fs tmp p u =
         (fs(tmp := None))(p \<mapsto> concat (all_writes (input_lines_of fs p) u))"
proof -
  let ?ws = "all_writes (input_lines_of fs p) u"
  let ?fs0 = "foldl apply_op fs (case fs p of None \<Rightarrow> [OpenCreate p] | Some c \<Rightarrow> [])"
  have "foldl apply_op (?fs0(tmp \<mapsto> [])) (map (Write tmp) ?ws) = ?fs0(tmp \<mapsto> [] @ concat ?ws)"
    using foldl_writes [of "?fs0(tmp \<mapsto> [])" tmp "[]" p ?ws] assms by simp
  then have "update_file fs tmp p u = (?fs0(tmp := None))(p \<mapsto> concat ?ws)"
    by (simp add: update_file_def update_file_ops_def)
  moreover have "(?fs0(tmp := None))(p \<mapsto> concat ?ws) = (fs(tmp := None))(p \<mapsto> concat ?ws)"
    using assms by (auto split: option.splits)
  ultimately show ?thesis by simp
qed

lemma loop_body_written_prefix: "prefix (written st) (written (loop_body u st l))"
  by (simp add: loop_body_def Let_def)

lemma loop_body_update_written: "update_written st \<Longrightarrow> update_written (loop_body u st l)"
  by (simp add: loop_body_def Let_def)

lemma foldl_written_prefix: "prefix (written st) (written (foldl (loop_body u) st ls))"
proof (induction ls arbitrary: st)
  case Nil
  then show ?case by simp
next
  case (Cons l ls)
  have "prefix (written st) (written (loop_body u st l))"
    by (rule loop_body_written_prefix)
  also have "prefix \<dots> (written (foldl (loop_body u) (loop_body u st l) ls))"
    by (rule Cons.IH)
  finally show ?case by simp
qed

lemma foldl_update_written:
  "update_written st \<Longrightarrow> update_written (foldl (loop_body u) st ls)"
  by (induction ls arbitrary: st) (simp_all add: loop_body_update_written)

lemma butlast_markers_no_LF:
  "LF \<notin> set (butlast FILE_MARKER_BEGIN)" "LF \<notin> set (butlast FILE_MARKER_END)"
  by code_simp+

lemma add_content_loop_body: "add_content (loop_body u st l) = py_in FILE_MARKER_BEGIN l"
  by (simp add: loop_body_def Let_def)

lemma update_written_loop_body:
  "update_written (loop_body u st l) = (update_written st \<or> add_content st)"
  by (simp add: loop_body_def Let_def)

lemma add_content_scan:
  "add_content (scan u ls) \<longleftrightarrow> ls \<noteq> [] \<and> py_in FILE_MARKER_BEGIN (last ls)"
  by (cases ls rule: rev_cases) (simp_all add: scan_def initial_state_def add_content_loop_body)

lemma update_written_scan:
  "update_written (scan u ls) \<longleftrightarrow> list_ex (py_in FILE_MARKER_BEGIN) (butlast ls)"
proof (induction ls rule: rev_induct)
  case Nil
  then show ?case by (simp add: scan_def initial_state_def)
next
  case (snoc l ls)
  have "update_written (scan u (ls @ [l])) \<longleftrightarrow>
        update_written (scan u ls) \<or> add_content (scan u ls)"
    by (simp add: scan_def update_written_loop_body)
  also have "\<dots> \<longleftrightarrow> list_ex (py_in FILE_MARKER_BEGIN) (butlast ls)
      \<or> (ls \<noteq> [] \<and> py_in FILE_MARKER_BEGIN (last ls))"
    by (simp only: snoc.IH add_content_scan)
  also have "\<dots> \<longleftrightarrow> list_ex (py_in FILE_MARKER_BEGIN) ls"
  proof (cases ls rule: rev_cases)
    case Nil
    then show ?thesis by simp
  next
    case (snoc ls0 x)
    then show ?thesis by (auto simp: list_ex_iff)
  qed
  finally show ?case by simp
qed

section \<open>Reading the output back\<close>

lemma read_lines_Nil_iff: "read_lines s = [] \<longleftrightarrow> s = []"
  by (simp add: read_lines_def split_lines_Nil_iff universal_newlines_Nil_iff)

lemma read_lines_begin: "read_lines FILE_MARKER_BEGIN = [FILE_MARKER_BEGIN]"
  by code_simp

lemma read_lines_end: "read_lines FILE_MARKER_END = [FILE_MARKER_END]"
  by code_simp

lemma last_markers: "last FILE_MARKER_BEGIN = LF" "last FILE_MARKER_END = LF"
  by (simp_all add: FILE_MARKER_BEGIN_def FILE_MARKER_END_def)

lemma consume_section:
  assumes "\<not> add_content st" and "marker_free u"
  shows "foldl (loop_body u) st (FILE_MARKER_BEGIN # read_lines (u @ [LF])) =
         st\<lparr>skip_line := True, add_content := False, update_written := True,
            written := written st @ [FILE_MARKER_BEGIN, u @ [LF]]\<rparr>"
proof -
  let ?s = "st\<lparr>skip_line := True, add_content := True\<rparr>"
  have 1: "loop_body u st FILE_MARKER_BEGIN = ?s"
    using assms(1) by (simp add: loop_body_begin begin_is_begin flush_def)
  have ne: "read_lines (u @ [LF]) \<noteq> []" by (simp add: read_lines_Nil_iff)
  have mf: "\<forall>l \<in> set (read_lines (u @ [LF])).
              \<not> py_in FILE_MARKER_BEGIN l \<and> \<not> py_in FILE_MARKER_END l"
    using assms(2) by (simp add: marker_free_def no_marker_lines_def list_all_iff)
  have 2: "foldl (loop_body u) ?s (read_lines (u @ [LF])) = flush u ?s"
    using ne mf by (intro skip_body) simp_all
  have "foldl (loop_body u) st (FILE_MARKER_BEGIN # read_lines (u @ [LF])) =
        foldl (loop_body u) (loop_body u st FILE_MARKER_BEGIN) (read_lines (u @ [LF]))"
    by simp
  also have "\<dots> = flush u ?s" by (simp only: 1 2)
  finally show ?thesis by (simp add: flush_def)
qed

lemma replays_initial: "replays u initial_state"
  by (simp add: replays_def scan_def initial_state_def)

lemma replays_step:
  assumes r: "replays u s1" and mf: "marker_free u" and l: "read_lines l = [l]"
  shows "replays u (loop_body u s1 l)"
proof -
  define s2 where "s2 = scan u (concat (map read_lines (written s1)))"
  define f where "f = flush u s1"
  define s2a where "s2a = scan u (concat (map read_lines (written f)))"
  from r have w: "written s2 = written s1" and uw: "update_written s2 = update_written s1"
    and a2: "\<not> add_content s2"
    and sk: "\<not> add_content s1 \<Longrightarrow> skip_line s2 = skip_line s1"
    and as: "add_content s1 \<Longrightarrow> skip_line s1"
    by (simp_all add: replays_def Let_def s2_def)
  have fa: "written s2a = written f \<and> update_written s2a = update_written f
      \<and> \<not> add_content s2a \<and> skip_line s2a = skip_line f"
  proof (cases "add_content s1")
    case False
    then have "f = s1" by (simp add: flush_def f_def)
    then have "s2a = s2" by (simp add: s2a_def s2_def)
    with False w uw a2 sk \<open>f = s1\<close> show ?thesis by simp
  next
    case True
    then have "concat (map read_lines (written f)) =
        concat (map read_lines (written s1)) @ (FILE_MARKER_BEGIN # read_lines (u @ [LF]))"
      by (simp add: read_lines_begin f_def)
    then have "s2a = foldl (loop_body u) s2 (FILE_MARKER_BEGIN # read_lines (u @ [LF]))"
      by (simp add: scan_def s2a_def s2_def)
    also have "\<dots> = s2\<lparr>skip_line := True, add_content := False, update_written := True,
            written := written s2 @ [FILE_MARKER_BEGIN, u @ [LF]]\<rparr>"
      using a2 mf by (rule consume_section)
    finally show ?thesis using True w as by (simp add: f_def)
  qed
  then have fw: "written s2a = written f" and fu: "update_written s2a = update_written f"
    and fad: "\<not> add_content s2a" and fs: "skip_line s2a = skip_line f"
    by simp_all
  have s2a_flush: "flush u s2a = s2a" using fad by (simp add: flush_def)
  have f_add: "\<not> add_content f" and f_skip: "skip_line f = skip_line s1"
    by (simp_all add: f_def)
  have f_as: "add_content s1 \<longrightarrow> skip_line f" using as by (simp add: f_def)
  have step: "scan u (concat (map read_lines (written f @ [l]))) = loop_body u s2a l"
    by (simp add: scan_def l s2a_def)
  consider (b) "py_in FILE_MARKER_BEGIN l"
    | (e) "\<not> py_in FILE_MARKER_BEGIN l" "py_in FILE_MARKER_END l"
    | (p) "\<not> py_in FILE_MARKER_BEGIN l" "\<not> py_in FILE_MARKER_END l" "skip_line s1"
    | (c) "\<not> py_in FILE_MARKER_BEGIN l" "\<not> py_in FILE_MARKER_END l" "\<not> skip_line s1"
    by blast
  then show ?thesis
  proof cases
    case b
    then have s1': "loop_body u s1 l = f\<lparr>skip_line := True, add_content := True\<rparr>"
      unfolding f_def by (rule loop_body_begin)
    have "scan u (concat (map read_lines (written (loop_body u s1 l)))) = s2a"
      by (simp add: s1' s2a_def)
    then show ?thesis using fw fu fad by (simp add: replays_def s1')
  next
    case e
    then have s1': "loop_body u s1 l = f\<lparr>skip_line := False, written := written f @ [l]\<rparr>"
      unfolding f_def by (rule loop_body_end)
    have "loop_body u s2a l = (flush u s2a)\<lparr>skip_line := False, written := written (flush u s2a) @ [l]\<rparr>"
      using e by (rule loop_body_end)
    then have "loop_body u s2a l = s2a\<lparr>skip_line := False, written := written s2a @ [l]\<rparr>"
      by (simp only: s2a_flush)
    with step have "scan u (concat (map read_lines (written (loop_body u s1 l)))) =
        s2a\<lparr>skip_line := False, written := written s2a @ [l]\<rparr>"
      by (simp add: s1')
    then show ?thesis using fw fu fad f_add by (simp add: replays_def s1')
  next
    case p
    from p(1,2) have "loop_body u s1 l =
        (if skip_line s1 then flush u s1 else (flush u s1)\<lparr>written := written (flush u s1) @ [l]\<rparr>)"
      by (rule loop_body_plain)
    with p(3) have s1': "loop_body u s1 l = f" by (simp add: f_def)
    have "scan u (concat (map read_lines (written (loop_body u s1 l)))) = s2a"
      by (simp add: s1' s2a_def)
    then show ?thesis using fw fu fad fs f_add f_as by (simp add: replays_def s1')
  next
    case c
    from c(1,2) have "loop_body u s1 l =
        (if skip_line s1 then flush u s1 else (flush u s1)\<lparr>written := written (flush u s1) @ [l]\<rparr>)"
      by (rule loop_body_plain)
    with c(3) have s1': "loop_body u s1 l = f\<lparr>written := written f @ [l]\<rparr>" by (simp add: f_def)
    from c(1,2) have "loop_body u s2a l =
        (if skip_line s2a then flush u s2a else (flush u s2a)\<lparr>written := written (flush u s2a) @ [l]\<rparr>)"
      by (rule loop_body_plain)
    with c(3) fs f_skip have "loop_body u s2a l = s2a\<lparr>written := written s2a @ [l]\<rparr>"
      by (simp add: s2a_flush)
    with step have "scan u (concat (map read_lines (written (loop_body u s1 l)))) =
        s2a\<lparr>written := written s2a @ [l]\<rparr>"
      by (simp add: s1')
    then show ?thesis using fw fu fad fs f_add f_as c(3) f_skip by (simp add: replays_def s1')
  qed
qed

lemma replays_scan:
  assumes "marker_free u" and "\<forall>l \<in> set ls. read_lines l = [l]"
  shows "replays u (scan u ls)"
  using assms(2)
proof (induction ls rule: rev_induct)
  case Nil
  then show ?case by (simp add: scan_def replays_initial)
next
  case (snoc l ls)
  then have "replays u (scan u ls)" and "read_lines l = [l]" by simp_all
  with assms(1) have "replays u (loop_body u (scan u ls) l)" by (intro replays_step)
  then show ?case by (simp add: scan_def)
qed


lemma written_loop_body:
  "written (loop_body u st l) =
     written st @ (if add_content st then [FILE_MARKER_BEGIN, u @ [LF]] else [])
       @ (if skip_line (loop_body u st l) then [] else [l])"
  by (simp add: loop_body_def Let_def)

lemma written_terminated:
  assumes "\<forall>c \<in> set (written st). c = [] \<or> last c = LF"
    and "\<forall>l \<in> set ls. l = [] \<or> last l = LF"
  shows "\<forall>c \<in> set (written (foldl (loop_body u) st ls)). c = [] \<or> last c = LF"
  using assms
proof (induction ls arbitrary: st)
  case Nil
  then show ?case by simp
next
  case (Cons l ls)
  have "\<forall>c \<in> set (written (loop_body u st l)). c = [] \<or> last c = LF"
    using Cons.prems by (auto simp: written_loop_body last_markers)
  with Cons show ?case by simp
qed

lemma written_butlast_terminated:
  assumes "\<forall>l \<in> set (butlast ls). l = [] \<or> last l = LF"
  shows "\<forall>c \<in> set (butlast (written (scan u ls))). c = [] \<or> last c = LF"
proof (cases ls rule: rev_cases)
  case Nil
  then show ?thesis by (simp add: scan_def initial_state_def)
next
  case (snoc ls0 l)
  let ?s = "scan u ls0"
  from assms snoc have "\<forall>l \<in> set ls0. l = [] \<or> last l = LF" by simp
  then have w0: "\<forall>c \<in> set (written ?s). c = [] \<or> last c = LF"
    unfolding scan_def by (intro written_terminated) (simp_all add: initial_state_def)
  define A where
    "A = written ?s @ (if add_content ?s then [FILE_MARKER_BEGIN, u @ [LF]] else [])"
  have a: "\<forall>c \<in> set A. c = [] \<or> last c = LF"
    using w0 by (auto simp: last_markers A_def)
  have "written (scan u ls) = A \<or> written (scan u ls) = A @ [l]"
    by (simp add: snoc scan_def written_loop_body A_def)
  then show ?thesis
  proof
    assume eq: "written (scan u ls) = A"
    show ?thesis
    proof
      fix c assume "c \<in> set (butlast (written (scan u ls)))"
      then have "c \<in> set A" unfolding eq by (rule in_set_butlastD)
      with a show "c = [] \<or> last c = LF" by blast
    qed
  next
    assume "written (scan u ls) = A @ [l]"
    then have "butlast (written (scan u ls)) = A" by simp
    with a show ?thesis by simp
  qed
qed

lemma read_lines_butlast_terminated:
  "l \<in> set (butlast (read_lines F)) \<Longrightarrow> last l = LF"
  unfolding read_lines_def by (rule split_lines_butlast_terminated)

lemma read_lines_all_terminated:
  assumes "ends_with_newline (read_lines F)" and "l \<in> set (read_lines F)"
  shows "last l = LF"
proof (cases "read_lines F" rule: rev_cases)
  case Nil
  with assms(2) show ?thesis by simp
next
  case (snoc ls x)
  with assms(1) have "last x = LF" by (simp add: ends_with_newline_def)
  moreover have "\<forall>l \<in> set ls. last l = LF"
    using read_lines_butlast_terminated [of _ F] snoc by simp
  ultimately show ?thesis using assms(2) snoc by auto
qed

lemma filter_single:
  assumes "length (filter P ls) = 1"
  obtains us x vs where "ls = us @ x # vs" "P x" "\<forall>u \<in> set us. \<not> P u" "\<forall>v \<in> set vs. \<not> P v"
proof -
  from assms obtain x where "filter P ls = [x]"
    by (cases "filter P ls") auto
  then obtain us vs where "ls = us @ x # vs" "\<forall>u \<in> set us. \<not> P u" "P x" "[] = filter P vs"
    unfolding filter_eq_Cons_iff by blast
  moreover from this have "\<forall>v \<in> set vs. \<not> P v"
    by (metis filter_empty_conv)
  ultimately show ?thesis using that by blast
qed

lemma one_section_decomp:
  assumes "length (filter P ls) = 1" and "length (filter Q ls) = 1"
    and "length (takeWhile (\<lambda>l. \<not> P l) ls) < length (takeWhile (\<lambda>l. \<not> Q l) ls)"
  obtains pre b body e post where "ls = pre @ [b] @ body @ [e] @ post" "P b" "Q e" "\<not> P e"
    "\<forall>x \<in> set pre. \<not> P x \<and> \<not> Q x" "\<forall>x \<in> set body. \<not> P x \<and> \<not> Q x"
    "\<forall>x \<in> set post. \<not> P x \<and> \<not> Q x"
proof -
  from assms(1) obtain us b vs where
    p: "ls = us @ b # vs" "P b" "\<forall>u \<in> set us. \<not> P u" "\<forall>v \<in> set vs. \<not> P v"
    by (rule filter_single)
  from assms(2) obtain us' e vs' where
    q: "ls = us' @ e # vs'" "Q e" "\<forall>u \<in> set us'. \<not> Q u" "\<forall>v \<in> set vs'. \<not> Q v"
    by (rule filter_single)
  have "takeWhile (\<lambda>l. \<not> P l) ls = us" using p by (simp add: takeWhile_append2)
  moreover have "takeWhile (\<lambda>l. \<not> Q l) ls = us'" using q by (simp add: takeWhile_append2)
  ultimately have len: "length us < length us'" using assms(3) by simp
  from p(1) q(1) have eq: "us @ b # vs = us' @ e # vs'" by simp
  with len obtain body where b: "us' = us @ b # body" "vs = body @ e # vs'"
    by (auto simp: append_eq_append_conv2 append_eq_Cons_conv Cons_eq_append_conv)
  have "ls = us @ [b] @ body @ [e] @ vs'" using p(1) b by simp
  moreover have "\<not> P e" using p(4) b by simp
  moreover have "\<forall>x \<in> set us. \<not> P x \<and> \<not> Q x" using p(3) q(3) b by simp
  moreover have "\<forall>x \<in> set body. \<not> P x \<and> \<not> Q x" using p(4) q(3) b by simp
  moreover have "\<forall>x \<in> set vs'. \<not> P x \<and> \<not> Q x" using p(4) q(4) b by simp
  ultimately show ?thesis using that p(2) q(2) by blast
qed

lemma read_back:
  assumes "ends_with_newline (read_lines F) \<or> update_written (scan u (read_lines F))"
  shows "read_lines (new_content F u) = concat (map read_lines (all_writes (read_lines F) u))"
proof -
  define W where "W = written (scan u (read_lines F))"
  have bt: "\<forall>c \<in> set (butlast W). c = [] \<or> last c = LF"
    unfolding W_def
    by (rule written_butlast_terminated) (simp add: read_lines_butlast_terminated)
  have "\<forall>c \<in> set (butlast (all_writes (read_lines F) u)). c = [] \<or> last c = LF"
  proof (cases "update_written (scan u (read_lines F))")
    case True
    then show ?thesis using bt by (simp add: all_writes_def W_def)
  next
    case False
    with assms have e: "ends_with_newline (read_lines F)" by simp
    have wt: "\<forall>c \<in> set W. c = [] \<or> last c = LF"
      unfolding W_def scan_def
      by (rule written_terminated)
         (simp_all add: initial_state_def read_lines_all_terminated [OF e])
    from False have "all_writes (read_lines F) u = W @ [FILE_MARKER_BEGIN, u @ [LF], FILE_MARKER_END]"
      by (simp add: all_writes_def W_def)
    then show ?thesis using wt by (auto simp: butlast_append last_markers)
  qed
  then show ?thesis unfolding new_content_def by (rule read_lines_concat)
qed

lemma concat_read_lines_lines:
  "\<forall>l \<in> set ls. read_lines l = [l] \<Longrightarrow> concat (map read_lines ls) = ls"
  by (induction ls) simp_all

lemma markers_no_CR: "CR \<notin> set FILE_MARKER_BEGIN" "CR \<notin> set FILE_MARKER_END"
  by code_simp+

lemma scan_section_update_written:
  assumes "\<forall>l \<in> set pre. \<not> py_in FILE_MARKER_BEGIN l"
    and "py_in FILE_MARKER_BEGIN b"
    and "\<forall>l \<in> set body. \<not> py_in FILE_MARKER_BEGIN l \<and> \<not> py_in FILE_MARKER_END l"
    and "py_in FILE_MARKER_END e" "\<not> py_in FILE_MARKER_BEGIN e"
  shows "update_written (scan u (pre @ [b] @ body @ [e] @ post))"
proof -
  let ?s = "\<lparr>add_content = False, skip_line = False, update_written = True,
             written = pre @ [FILE_MARKER_BEGIN, u @ [LF], e]\<rparr>"
  have "scan u (pre @ [b] @ body @ [e] @ post) =
        foldl (loop_body u) (foldl (loop_body u) initial_state (pre @ [b] @ body @ [e])) post"
    by (simp add: scan_def)
  also have "\<dots> = foldl (loop_body u) ?s post"
    by (simp only: scan_section [OF assms])
  finally show ?thesis by (simp add: foldl_update_written)
qed

lemma unterminated_no_LF:
  assumes "l \<in> set (read_lines F)" and "last l \<noteq> LF"
  shows "LF \<notin> set l"
proof -
  from assms(1) have "l \<noteq> []" and "LF \<notin> set (butlast l)"
    by (simp_all add: read_lines_nonempty read_lines_inner)
  then have "l = butlast l @ [last l]" by simp
  then have "set l = set (butlast l) \<union> {last l}"
    by (metis Un_insert_right list.simps(15) set_append sup_bot.right_neutral empty_set)
  with assms(2) \<open>LF \<notin> set (butlast l)\<close> show ?thesis by auto
qed

section \<open>Content outside the section\<close>

text \<open>
  Whatever the input and the replacement, the kept lines are passed to \<open>write\<close> as they
  are and in their order. They are lines of the new content, in their order, when the file
  is empty or ends with a line break, or has a begin-marker line that is followed by
  another line.
\<close>

lemma kept_lines_subset: "set (kept_lines sk ls) \<subseteq> set ls"
  by (induction ls arbitrary: sk) auto

lemma skip_line_loop_body:
  "skip_line (loop_body u st l) =
     (py_in FILE_MARKER_BEGIN l \<or> (\<not> py_in FILE_MARKER_END l \<and> skip_line st))"
  by (simp add: loop_body_def Let_def)

lemma kept_lines_written:
  "\<exists>X. written (foldl (loop_body u) st ls) = written st @ X
       \<and> subseq (kept_lines (skip_line st) ls) X"
proof (induction ls arbitrary: st)
  case Nil
  then show ?case by simp
next
  case (Cons l ls)
  define st' where "st' = loop_body u st l"
  define A where "A = (if add_content st then [FILE_MARKER_BEGIN, u @ [LF]] else [])"
  define B where "B = (if skip_line st' then [] else [l])"
  have w: "written st' = written st @ A @ B"
    by (simp add: st'_def A_def B_def written_loop_body)
  from Cons.IH [of st'] obtain X where
    X: "written (foldl (loop_body u) st' ls) = written st' @ X"
      "subseq (kept_lines (skip_line st') ls) X"
    by blast
  have k: "kept_lines (skip_line st) (l # ls) = B @ kept_lines (skip_line st') ls"
    by (auto simp: B_def st'_def skip_line_loop_body)
  have "subseq (B @ kept_lines (skip_line st') ls) (B @ X)"
    using X(2) by (simp only: subseq_append')
  then have "subseq (kept_lines (skip_line st) (l # ls)) (A @ B @ X)"
    unfolding k by (rule list_emb_append2)
  moreover have "written (foldl (loop_body u) st (l # ls)) = written st @ (A @ B @ X)"
    by (simp add: X(1) w st'_def [symmetric])
  ultimately show ?case by blast
qed

lemma kept_lines_all_writes: "subseq (kept_lines False ls) (all_writes ls u)"
proof -
  obtain X where X: "written (scan u ls) = X" "subseq (kept_lines False ls) X"
    using kept_lines_written [of u initial_state ls]
    by (auto simp: scan_def initial_state_def)
  show ?thesis
  proof (cases "update_written (scan u ls)")
    case True
    with X show ?thesis by (simp add: all_writes_def)
  next
    case False
    then have "all_writes ls u = X @ [FILE_MARKER_BEGIN, u @ [LF], FILE_MARKER_END]"
      by (simp add: all_writes_def X(1))
    with X(2) show ?thesis by (simp add: list_emb_prefix)
  qed
qed

lemma subseq_concat_map:
  "subseq xs ws \<Longrightarrow> \<forall>x \<in> set xs. f x = [x] \<Longrightarrow> subseq xs (concat (map f ws))"
proof (induction rule: list_emb.induct)
  case (list_emb_Nil ys)
  then show ?case by simp
next
  case (list_emb_Cons xs ys y)
  then have "subseq xs (concat (map f ys))" by simp
  then have "subseq xs (f y @ concat (map f ys))" by (rule list_emb_append2)
  then show ?case by simp
next
  case (list_emb_Cons2 x y xs ys)
  then have "subseq xs (concat (map f ys))" and "f y = [x]" by simp_all
  then show ?case by simp
qed

lemma kept_lines_in_output:
  assumes "ends_with_newline (read_lines F)
           \<or> list_ex (py_in FILE_MARKER_BEGIN) (butlast (read_lines F))"
  shows "subseq (kept_lines False (read_lines F)) (read_lines (new_content F u))"
proof -
  from assms have "ends_with_newline (read_lines F) \<or> update_written (scan u (read_lines F))"
    by (simp add: update_written_scan)
  then have "read_lines (new_content F u) = concat (map read_lines (all_writes (read_lines F) u))"
    by (rule read_back)
  moreover have "\<forall>x \<in> set (kept_lines False (read_lines F)). read_lines x = [x]"
    using kept_lines_subset [of False "read_lines F"] by (auto simp: read_lines_idem)
  ultimately show ?thesis
    using kept_lines_all_writes [of "read_lines F" u] by (simp add: subseq_concat_map)
qed

section \<open>The file operations\<close>

lemma apply_op_target:
  assumes "tmp \<noteq> p" and "op = OpenCreate p \<or> op = NewTempFile tmp \<or> (\<exists>s. op = Write tmp s)"
  shows "apply_op fs op p = fs p \<or> (fs p = None \<and> apply_op fs op p = Some [])"
  using assms by (auto split: option.splits)

lemma before_move_target:
  assumes "tmp \<noteq> p"
    and "\<forall>op \<in> set ops. op = OpenCreate p \<or> op = NewTempFile tmp \<or> (\<exists>s. op = Write tmp s)"
  shows "foldl apply_op fs ops p = fs p \<or> (fs p = None \<and> foldl apply_op fs ops p = Some [])"
  using assms(2)
proof (induction ops rule: rev_induct)
  case Nil
  then show ?case by simp
next
  case (snoc op ops)
  let ?r = "foldl apply_op fs ops"
  from snoc have ih: "?r p = fs p \<or> (fs p = None \<and> ?r p = Some [])" by simp
  from snoc.prems have "op = OpenCreate p \<or> op = NewTempFile tmp \<or> (\<exists>s. op = Write tmp s)"
    by simp
  with assms(1) have "apply_op ?r op p = ?r p \<or> (?r p = None \<and> apply_op ?r op p = Some [])"
    by (rule apply_op_target)
  with ih show ?case by auto
qed

lemma take_front: "n < length (xs @ [y]) \<Longrightarrow> take n (xs @ [y]) = take n xs"
  by simp

section \<open>The claims about the updater\<close>

text \<open>
  C1 (amended). Let no line of the replacement (as written, with its line break) be a
  marker line, and let the file be empty or end with a line break, or have a begin-marker
  line that is followed by another line (so that the first run replaces instead of
  appending). Then updating twice with the same replacement gives the same content as
  updating once. Both conditions are needed: with the end-marker text as replacement the
  second run of an update of the empty file adds another end marker, and a file that is
  the line \<open>a\<close> without line break loses that line in the second run.
\<close>

theorem C1_idempotent:
  assumes mf: "marker_free u"
    and t0: "ends_with_newline (read_lines F)
             \<or> list_ex (py_in FILE_MARKER_BEGIN) (butlast (read_lines F))"
  shows "new_content (new_content F u) u = new_content F u"
proof -
  from t0 have t: "ends_with_newline (read_lines F) \<or> update_written (scan u (read_lines F))"
    by (simp add: update_written_scan)
  define s1 where "s1 = scan u (read_lines F)"
  define W where "W = written s1"
  define s2 where "s2 = scan u (concat (map read_lines W))"
  have "replays u s1"
    unfolding s1_def using mf by (rule replays_scan) (simp add: read_lines_idem)
  then have w2: "written s2 = W" and u2: "update_written s2 = update_written s1"
    and a2: "\<not> add_content s2"
    by (simp_all add: replays_def Let_def s2_def W_def)
  have bt: "\<forall>c \<in> set (butlast W). c = [] \<or> last c = LF"
    unfolding W_def s1_def
    by (rule written_butlast_terminated) (simp add: read_lines_butlast_terminated)
  show ?thesis
  proof (cases "update_written s1")
    case True
    then have 1: "all_writes (read_lines F) u = W"
      by (simp add: all_writes_def s1_def [symmetric] W_def)
    have "read_lines (concat W) = concat (map read_lines W)"
      using bt by (rule read_lines_concat)
    then have "scan u (read_lines (concat W)) = s2" by (simp add: s2_def)
    with True w2 u2 have "all_writes (read_lines (concat W)) u = W"
      by (simp add: all_writes_def)
    with 1 show ?thesis by (simp add: new_content_def)
  next
    case False
    with t have e: "ends_with_newline (read_lines F)" by (simp add: s1_def)
    have wt: "\<forall>c \<in> set W. c = [] \<or> last c = LF"
      unfolding W_def s1_def scan_def
      by (rule written_terminated)
         (simp_all add: initial_state_def read_lines_all_terminated [OF e])
    let ?S = "[FILE_MARKER_BEGIN, u @ [LF], FILE_MARKER_END]"
    from False have 1: "all_writes (read_lines F) u = W @ ?S"
      by (simp add: all_writes_def s1_def [symmetric] W_def)
    have "\<forall>c \<in> set (butlast (W @ ?S)). c = [] \<or> last c = LF"
      using wt by (auto simp: butlast_append last_markers)
    then have "read_lines (concat (W @ ?S)) = concat (map read_lines (W @ ?S))"
      by (rule read_lines_concat)
    then have rl: "read_lines (concat (W @ ?S)) =
        concat (map read_lines W) @ (FILE_MARKER_BEGIN # read_lines (u @ [LF])) @ [FILE_MARKER_END]"
      by (simp add: read_lines_begin read_lines_end)
    define s3 where "s3 = foldl (loop_body u) s2 (FILE_MARKER_BEGIN # read_lines (u @ [LF]))"
    have s3: "s3 = s2\<lparr>skip_line := True, add_content := False, update_written := True,
                     written := written s2 @ [FILE_MARKER_BEGIN, u @ [LF]]\<rparr>"
      unfolding s3_def using a2 mf by (rule consume_section)
    have "scan u (read_lines (concat (W @ ?S))) = loop_body u s3 FILE_MARKER_END"
      by (simp only: rl scan_def foldl_append s2_def [unfolded scan_def, symmetric] s3_def [symmetric])
         simp
    also have "\<dots> = (flush u s3)\<lparr>skip_line := False,
                        written := written (flush u s3) @ [FILE_MARKER_END]\<rparr>"
      using end_not_begin end_is_end by (rule loop_body_end)
    finally have "written (scan u (read_lines (concat (W @ ?S)))) = W @ ?S"
      and "update_written (scan u (read_lines (concat (W @ ?S))))"
      by (simp_all add: s3 w2)
    then have "all_writes (read_lines (concat (W @ ?S))) u = W @ ?S"
      by (simp add: all_writes_def)
    with 1 show ?thesis by (simp add: new_content_def)
  qed
qed

theorem C1_idempotent_witness:
  "marker_free ''new''
   \<and> ends_with_newline (read_lines (''a'' @ [LF] @ ''b'' @ [LF]))
   \<and> new_content (new_content (''a'' @ [LF] @ ''b'' @ [LF]) ''new'') ''new''
       = new_content (''a'' @ [LF] @ ''b'' @ [LF]) ''new''
   \<and> list_ex (py_in FILE_MARKER_BEGIN) (butlast
         (read_lines (''x'' @ [LF] @ FILE_MARKER_BEGIN @ ''old'' @ [LF] @ FILE_MARKER_END @ ''y'')))
   \<and> new_content (new_content (''x'' @ [LF] @ FILE_MARKER_BEGIN @ ''old'' @ [LF] @ FILE_MARKER_END @ ''y'')
         ''new'') ''new''
       = new_content (''x'' @ [LF] @ FILE_MARKER_BEGIN @ ''old'' @ [LF] @ FILE_MARKER_END @ ''y'') ''new''"
proof -
  have m: "marker_free ''new''" by code_simp
  have e: "ends_with_newline (read_lines (''a'' @ [LF] @ ''b'' @ [LF]))" by code_simp
  have w: "list_ex (py_in FILE_MARKER_BEGIN) (butlast
         (read_lines (''x'' @ [LF] @ FILE_MARKER_BEGIN @ ''old'' @ [LF] @ FILE_MARKER_END @ ''y'')))"
    by code_simp
  from e have h1: "ends_with_newline (read_lines (''a'' @ [LF] @ ''b'' @ [LF]))
      \<or> list_ex (py_in FILE_MARKER_BEGIN) (butlast (read_lines (''a'' @ [LF] @ ''b'' @ [LF])))" ..
  from w have h2: "ends_with_newline
        (read_lines (''x'' @ [LF] @ FILE_MARKER_BEGIN @ ''old'' @ [LF] @ FILE_MARKER_END @ ''y''))
      \<or> list_ex (py_in FILE_MARKER_BEGIN) (butlast
         (read_lines (''x'' @ [LF] @ FILE_MARKER_BEGIN @ ''old'' @ [LF] @ FILE_MARKER_END @ ''y'')))" ..
  from C1_idempotent [OF m h1] C1_idempotent [OF m h2] m e w show ?thesis by blast
qed

theorem C1_not_idempotent:
  "new_content
     (new_content [] ''### GENERATED SECTION - DO NOT MODIFY - END ###'')
     ''### GENERATED SECTION - DO NOT MODIFY - END ###''
     \<noteq> new_content [] ''### GENERATED SECTION - DO NOT MODIFY - END ###''
   \<and> new_content (new_content ''a'' ''new'') ''new'' \<noteq> new_content ''a'' ''new''"
  by code_simp

text \<open>
  C2 (amended). Let no line of the replacement (as written, with its line break) be a
  marker line, and let the file have no marker line at all, or exactly one begin-marker
  line and exactly one end-marker line with the begin-marker line first. Then the new
  content has exactly one line containing the begin marker and exactly one line containing
  the end marker. Otherwise it need not: a file with two sections keeps two begin-marker
  lines, a begin marker that is never closed gives no end-marker line, and the end-marker
  text as replacement gives two.
\<close>

theorem C2_single_section:
  assumes mf: "marker_free u" and wf: "at_most_one_section (read_lines F)"
  shows "length (filter (py_in FILE_MARKER_BEGIN) (read_lines (new_content F u))) = 1
       \<and> length (filter (py_in FILE_MARKER_END) (read_lines (new_content F u))) = 1"
proof -
  define L where "L = read_lines F"
  define RL where "RL = read_lines (u @ [LF])"
  have rb: "filter (py_in FILE_MARKER_BEGIN) RL = []"
    and re: "filter (py_in FILE_MARKER_END) RL = []"
    using mf by (simp_all add: marker_free_def no_marker_lines_def list_all_iff RL_def)
  have idem: "\<forall>l \<in> set L. read_lines l = [l]"
    by (simp add: L_def read_lines_idem)
  from wf consider
    (none) "filter (py_in FILE_MARKER_BEGIN) L = []" "filter (py_in FILE_MARKER_END) L = []"
    | (one) "length (filter (py_in FILE_MARKER_BEGIN) L) = 1"
        "length (filter (py_in FILE_MARKER_END) L) = 1"
        "length (takeWhile (\<lambda>l. \<not> py_in FILE_MARKER_BEGIN l) L)
           < length (takeWhile (\<lambda>l. \<not> py_in FILE_MARKER_END l) L)"
    by (auto simp: at_most_one_section_def Let_def L_def)
  then show ?thesis
  proof cases
    case none
    then have nb: "\<forall>l \<in> set L. \<not> py_in FILE_MARKER_BEGIN l"
      and ne: "\<forall>l \<in> set L. \<not> py_in FILE_MARKER_END l"
      by (simp_all add: filter_empty_conv)
    have aw: "all_writes L u = L @ [FILE_MARKER_BEGIN, u @ [LF], FILE_MARKER_END]"
      using nb by (rule all_writes_no_begin)
    show ?thesis
    proof (cases "ends_with_newline L")
      case True
      then have "read_lines (new_content F u) = concat (map read_lines (all_writes L u))"
        unfolding L_def by (intro read_back) simp
      then have "read_lines (new_content F u) = L @ [FILE_MARKER_BEGIN] @ RL @ [FILE_MARKER_END]"
        by (simp add: aw concat_read_lines_lines [OF idem] read_lines_begin read_lines_end RL_def)
      then show ?thesis
        using none rb re by (simp add: begin_is_begin end_is_end begin_not_end end_not_begin)
    next
      case False
      then obtain L0 x where L: "L = L0 @ [x]" and x: "last x \<noteq> LF"
        by (cases L rule: rev_cases) (auto simp: ends_with_newline_def)
      have xin: "x \<in> set (read_lines F)" using L by (simp add: L_def [symmetric])
      then have xLF: "LF \<notin> set x" using x by (rule unterminated_no_LF)
      have xCR: "CR \<notin> set x" using xin by (rule read_lines_no_CR)
      have l0: "\<forall>l \<in> set L0. last l = LF"
        using read_lines_butlast_terminated [of _ F] L by (simp add: L_def [symmetric])
      have "FILE_MARKER_BEGIN \<noteq> []" by (simp add: FILE_MARKER_BEGIN_def)
      then have bl: "butlast (x @ FILE_MARKER_BEGIN) = x @ butlast FILE_MARKER_BEGIN"
        and la: "last (x @ FILE_MARKER_BEGIN) = LF"
        by (simp_all add: butlast_append last_markers)
      have inner: "LF \<notin> set (butlast (x @ FILE_MARKER_BEGIN))"
        using xLF by (simp add: bl butlast_markers_no_LF)
      have xb: "read_lines (x @ FILE_MARKER_BEGIN) = [x @ FILE_MARKER_BEGIN]"
        using \<open>FILE_MARKER_BEGIN \<noteq> []\<close> xCR inner by (intro read_lines_line) (simp_all add: markers_no_CR)
      have isb: "py_in FILE_MARKER_BEGIN (x @ FILE_MARKER_BEGIN)" by (simp add: py_in_def)
      have xne: "\<not> py_in FILE_MARKER_END (x @ FILE_MARKER_BEGIN)"
        using inner isb by (rule line_not_both)
      let ?cs = "L0 @ [x @ FILE_MARKER_BEGIN, u @ [LF], FILE_MARKER_END]"
      have "new_content F u = concat (all_writes L u)"
        by (simp add: new_content_def L_def)
      also have "\<dots> = concat (L @ [FILE_MARKER_BEGIN, u @ [LF], FILE_MARKER_END])"
        by (simp only: aw)
      also have "\<dots> = concat ?cs" by (simp add: L)
      finally have "new_content F u = concat ?cs" .
      moreover have "\<forall>c \<in> set (butlast ?cs). c = [] \<or> last c = LF"
        using l0 la by (auto simp: butlast_append)
      then have "read_lines (concat ?cs) = concat (map read_lines ?cs)"
        by (rule read_lines_concat)
      moreover have "concat (map read_lines L0) = L0"
        using idem L by (intro concat_read_lines_lines) simp
      ultimately have "read_lines (new_content F u) =
          L0 @ [x @ FILE_MARKER_BEGIN] @ RL @ [FILE_MARKER_END]"
        by (simp add: xb read_lines_end RL_def)
      then show ?thesis
        using none L rb re isb xne by (simp add: end_is_end end_not_begin)
    qed
  next
    case one
    then obtain pre b body e post where
      d: "L = pre @ [b] @ body @ [e] @ post" "py_in FILE_MARKER_BEGIN b" "py_in FILE_MARKER_END e"
        "\<not> py_in FILE_MARKER_BEGIN e"
        "\<forall>x \<in> set pre. \<not> py_in FILE_MARKER_BEGIN x \<and> \<not> py_in FILE_MARKER_END x"
        "\<forall>x \<in> set body. \<not> py_in FILE_MARKER_BEGIN x \<and> \<not> py_in FILE_MARKER_END x"
        "\<forall>x \<in> set post. \<not> py_in FILE_MARKER_BEGIN x \<and> \<not> py_in FILE_MARKER_END x"
      by (rule one_section_decomp)
    have aw: "all_writes L u = pre @ [FILE_MARKER_BEGIN, u @ [LF], e] @ post"
      unfolding d(1) using d(2-7) by (intro all_writes_section) simp_all
    have "update_written (scan u L)"
      unfolding d(1) using d(2-7) by (intro scan_section_update_written) simp_all
    then have "read_lines (new_content F u) = concat (map read_lines (all_writes L u))"
      unfolding L_def by (intro read_back) simp
    moreover have "concat (map read_lines pre) = pre" "concat (map read_lines post) = post"
      "read_lines e = [e]"
      using idem d(1) by (simp_all add: concat_read_lines_lines)
    ultimately have "read_lines (new_content F u) = pre @ [FILE_MARKER_BEGIN] @ RL @ [e] @ post"
      by (simp add: aw read_lines_begin RL_def)
    then show ?thesis
      using d(2-7) rb re by (simp add: begin_is_begin begin_not_end)
  qed
qed

theorem C2_single_section_witness:
  "marker_free ''new''
   \<and> at_most_one_section
        (read_lines (''x'' @ [LF] @ FILE_MARKER_BEGIN @ ''old'' @ [LF] @ FILE_MARKER_END @ ''y'' @ [LF]))
   \<and> length (filter (py_in FILE_MARKER_BEGIN) (read_lines (new_content
        (''x'' @ [LF] @ FILE_MARKER_BEGIN @ ''old'' @ [LF] @ FILE_MARKER_END @ ''y'' @ [LF]) ''new''))) = 1
   \<and> length (filter (py_in FILE_MARKER_END) (read_lines (new_content
        (''x'' @ [LF] @ FILE_MARKER_BEGIN @ ''old'' @ [LF] @ FILE_MARKER_END @ ''y'' @ [LF]) ''new''))) = 1"
proof -
  have m: "marker_free ''new''" by code_simp
  have a: "at_most_one_section
        (read_lines (''x'' @ [LF] @ FILE_MARKER_BEGIN @ ''old'' @ [LF] @ FILE_MARKER_END @ ''y'' @ [LF]))"
    by code_simp
  from C2_single_section [OF m a] m a show ?thesis by blast
qed

theorem C2_two_sections:
  "length (filter (py_in FILE_MARKER_BEGIN) (read_lines (new_content
      (FILE_MARKER_BEGIN @ ''a'' @ [LF] @ FILE_MARKER_END @ ''m'' @ [LF]
       @ FILE_MARKER_BEGIN @ ''b'' @ [LF] @ FILE_MARKER_END) ''new''))) = 2
   \<and> length (filter (py_in FILE_MARKER_END) (read_lines (new_content
      (FILE_MARKER_BEGIN @ ''old'' @ [LF]) ''new''))) = 0
   \<and> length (filter (py_in FILE_MARKER_END) (read_lines (new_content []
      ''### GENERATED SECTION - DO NOT MODIFY - END ###''))) = 2"
  by code_simp

text \<open>
  C3. A file whose last line has no line break and that has no section yet: the begin
  marker is written right behind that line, so the line \<open>a\<close> of the input is no line of
  the output (the output's first line is \<open>a\<close> followed by the marker text), and the next
  update takes that line for the begin-marker line and drops it.
\<close>

theorem C3_last_line_without_newline:
  "read_lines ''a'' = [''a'']
   \<and> list_all (\<lambda>l. \<not> py_in FILE_MARKER_BEGIN l \<and> \<not> py_in FILE_MARKER_END l) (read_lines ''a'')
   \<and> new_content ''a'' ''new'' = ''a'' @ FILE_MARKER_BEGIN @ ''new'' @ [LF] @ FILE_MARKER_END
   \<and> read_lines (new_content ''a'' ''new'') = [''a'' @ FILE_MARKER_BEGIN, ''new'' @ [LF], FILE_MARKER_END]
   \<and> ''a'' \<notin> set (read_lines (new_content ''a'' ''new''))
   \<and> new_content (new_content ''a'' ''new'') ''new'' = FILE_MARKER_BEGIN @ ''new'' @ [LF] @ FILE_MARKER_END"
  by code_simp

text \<open>
  C4. A file made of the five lines a, begin marker, old, end marker, b, updated with the
  replacement new, becomes a, begin marker, new, end marker, b. In general, when the
  lines of the file are \<open>pre\<close>, a begin-marker line, a body \<open>B1\<close> without marker lines,
  an end-marker line and \<open>post\<close> (no begin-marker line in \<open>pre\<close> or \<open>post\<close>), the new
  content is \<open>pre\<close>, the begin marker, the new body \<open>B2\<close> with a line break, the
  end-marker line and \<open>post\<close>: \<open>B1\<close> is gone, the rest is as it was.
\<close>

theorem C4_replacement:
  "new_content (''a'' @ [LF] @ FILE_MARKER_BEGIN @ ''old'' @ [LF] @ FILE_MARKER_END @ ''b'' @ [LF]) ''new''
     = ''a'' @ [LF] @ FILE_MARKER_BEGIN @ ''new'' @ [LF] @ FILE_MARKER_END @ ''b'' @ [LF]
   \<and> (read_lines F = pre @ [b] @ B1 @ [e] @ post
        \<and> (\<forall>l \<in> set pre. \<not> py_in FILE_MARKER_BEGIN l)
        \<and> py_in FILE_MARKER_BEGIN b
        \<and> (\<forall>l \<in> set B1. \<not> py_in FILE_MARKER_BEGIN l \<and> \<not> py_in FILE_MARKER_END l)
        \<and> py_in FILE_MARKER_END e
        \<and> (\<forall>l \<in> set post. \<not> py_in FILE_MARKER_BEGIN l)
      \<longrightarrow> new_content F B2 = concat pre @ FILE_MARKER_BEGIN @ B2 @ [LF] @ e @ concat post)"
proof (intro conjI impI)
  show "new_content (''a'' @ [LF] @ FILE_MARKER_BEGIN @ ''old'' @ [LF] @ FILE_MARKER_END @ ''b'' @ [LF]) ''new''
     = ''a'' @ [LF] @ FILE_MARKER_BEGIN @ ''new'' @ [LF] @ FILE_MARKER_END @ ''b'' @ [LF]"
    by code_simp
next
  assume h: "read_lines F = pre @ [b] @ B1 @ [e] @ post
        \<and> (\<forall>l \<in> set pre. \<not> py_in FILE_MARKER_BEGIN l)
        \<and> py_in FILE_MARKER_BEGIN b
        \<and> (\<forall>l \<in> set B1. \<not> py_in FILE_MARKER_BEGIN l \<and> \<not> py_in FILE_MARKER_END l)
        \<and> py_in FILE_MARKER_END e
        \<and> (\<forall>l \<in> set post. \<not> py_in FILE_MARKER_BEGIN l)"
  then have "e \<in> set (read_lines F)" by simp
  then have "LF \<notin> set (butlast e)" by (rule read_lines_inner)
  with h have e: "\<not> py_in FILE_MARKER_BEGIN e" using line_not_both by blast
  from h e have "all_writes (pre @ [b] @ B1 @ [e] @ post) B2 =
                 pre @ [FILE_MARKER_BEGIN, B2 @ [LF], e] @ post"
    by (intro all_writes_section) simp_all
  with h show "new_content F B2 = concat pre @ FILE_MARKER_BEGIN @ B2 @ [LF] @ e @ concat post"
    by (simp add: new_content_def)
qed

theorem C4_replacement_witness:
  "read_lines (''x'' @ [LF] @ ''# '' @ FILE_MARKER_BEGIN @ ''old1'' @ [LF] @ ''old2'' @ [LF]
               @ FILE_MARKER_END @ ''y'')
     = [''x'' @ [LF]] @ [''# '' @ FILE_MARKER_BEGIN] @ [''old1'' @ [LF], ''old2'' @ [LF]]
       @ [FILE_MARKER_END] @ [''y'']
   \<and> list_all (\<lambda>l. \<not> py_in FILE_MARKER_BEGIN l) [''x'' @ [LF]]
   \<and> py_in FILE_MARKER_BEGIN (''# '' @ FILE_MARKER_BEGIN)
   \<and> list_all (\<lambda>l. \<not> py_in FILE_MARKER_BEGIN l \<and> \<not> py_in FILE_MARKER_END l)
         [''old1'' @ [LF], ''old2'' @ [LF]]
   \<and> py_in FILE_MARKER_END FILE_MARKER_END
   \<and> list_all (\<lambda>l. \<not> py_in FILE_MARKER_BEGIN l) [''y'']
   \<and> new_content (''x'' @ [LF] @ ''# '' @ FILE_MARKER_BEGIN @ ''old1'' @ [LF] @ ''old2'' @ [LF]
                   @ FILE_MARKER_END @ ''y'') ''new''
     = concat [''x'' @ [LF]] @ FILE_MARKER_BEGIN @ ''new'' @ [LF] @ FILE_MARKER_END @ concat [''y'']"
proof -
  have h: "read_lines (''x'' @ [LF] @ ''# '' @ FILE_MARKER_BEGIN @ ''old1'' @ [LF] @ ''old2'' @ [LF]
               @ FILE_MARKER_END @ ''y'')
     = [''x'' @ [LF]] @ [''# '' @ FILE_MARKER_BEGIN] @ [''old1'' @ [LF], ''old2'' @ [LF]]
       @ [FILE_MARKER_END] @ [''y'']
   \<and> list_all (\<lambda>l. \<not> py_in FILE_MARKER_BEGIN l) [''x'' @ [LF]]
   \<and> py_in FILE_MARKER_BEGIN (''# '' @ FILE_MARKER_BEGIN)
   \<and> list_all (\<lambda>l. \<not> py_in FILE_MARKER_BEGIN l \<and> \<not> py_in FILE_MARKER_END l)
         [''old1'' @ [LF], ''old2'' @ [LF]]
   \<and> py_in FILE_MARKER_END FILE_MARKER_END
   \<and> list_all (\<lambda>l. \<not> py_in FILE_MARKER_BEGIN l) [''y'']"
    by code_simp
  with C4_replacement [of "''x'' @ [LF] @ ''# '' @ FILE_MARKER_BEGIN @ ''old1'' @ [LF] @ ''old2'' @ [LF]
               @ FILE_MARKER_END @ ''y''" "[''x'' @ [LF]]" "''# '' @ FILE_MARKER_BEGIN"
      "[''old1'' @ [LF], ''old2'' @ [LF]]" FILE_MARKER_END "[''y'']" "''new''"]
  show ?thesis unfolding list_all_iff by blast
qed

text \<open>
  C5. When no line of the input contains the begin marker (a missing path has no lines),
  the new file is the lines as read, followed by the begin marker, the replacement with a
  line break and the end marker; on a missing path it is exactly these three.
\<close>

theorem C5_append_on_absence:
  assumes "\<forall>l \<in> set (input_lines_of fs p). \<not> py_in FILE_MARKER_BEGIN l" and "tmp \<noteq> p"
  shows "update_file fs tmp p u p =
           Some (concat (input_lines_of fs p) @ FILE_MARKER_BEGIN @ u @ [LF] @ FILE_MARKER_END)
         \<and> (fs p = None \<longrightarrow>
              update_file fs tmp p u p = Some (FILE_MARKER_BEGIN @ u @ [LF] @ FILE_MARKER_END))
         \<and> (\<forall>old. fs p = Some old \<longrightarrow>
              update_file fs tmp p u p =
                Some (universal_newlines old @ FILE_MARKER_BEGIN @ u @ [LF] @ FILE_MARKER_END))"
  using assms
  by (simp add: update_file_result all_writes_no_begin input_lines_of_def read_lines_def
      concat_split_lines)

theorem C5_append_on_absence_witness:
  "list_all (\<lambda>l. \<not> py_in FILE_MARKER_BEGIN l)
     (input_lines_of [''MODULE.bazel'' \<mapsto> ''a'' @ [LF] @ ''b'' @ [LF]] ''MODULE.bazel'')
   \<and> ''/tmp/tmp0'' \<noteq> ''MODULE.bazel''
   \<and> update_file [''MODULE.bazel'' \<mapsto> ''a'' @ [LF] @ ''b'' @ [LF]] ''/tmp/tmp0'' ''MODULE.bazel'' ''new''
        ''MODULE.bazel''
     = Some (concat [''a'' @ [LF], ''b'' @ [LF]] @ FILE_MARKER_BEGIN @ ''new'' @ [LF] @ FILE_MARKER_END)"
proof -
  let ?fs = "[''MODULE.bazel'' \<mapsto> ''a'' @ [LF] @ ''b'' @ [LF]]"
  have l: "input_lines_of ?fs ''MODULE.bazel'' = [''a'' @ [LF], ''b'' @ [LF]]"
    by (simp add: input_lines_of_def read_lines_def LF_def CR_def)
  have "\<forall>l \<in> set [''a'' @ [LF], ''b'' @ [LF]]. \<not> py_in FILE_MARKER_BEGIN l"
    by code_simp
  then have h1: "\<forall>l \<in> set (input_lines_of ?fs ''MODULE.bazel''). \<not> py_in FILE_MARKER_BEGIN l"
    by (simp only: l)
  have h2: "''/tmp/tmp0'' \<noteq> ''MODULE.bazel''" by simp
  have r: "update_file ?fs ''/tmp/tmp0'' ''MODULE.bazel'' ''new'' ''MODULE.bazel'' =
             Some (concat (input_lines_of ?fs ''MODULE.bazel'') @ FILE_MARKER_BEGIN @ ''new'' @ [LF]
                   @ FILE_MARKER_END)"
    using C5_append_on_absence [OF h1 h2, of "''new''"] by (rule conjunct1)
  from h1 h2 r [unfolded l] show ?thesis unfolding list_all_iff by blast
qed

text \<open>
  C6 (amended). When the lines of the input are \<open>pre\<close> (no begin-marker line), a
  begin-marker line \<open>b\<close>, a body without marker lines, an end-marker line \<open>e\<close> and
  further lines \<open>post\<close>, the output starts with \<open>pre\<close>, the begin-marker constant (written
  in place of the line \<open>b\<close>, which is not copied), the replacement with a line break, and
  the line \<open>e\<close> as it stands; when \<open>post\<close> has no begin-marker line, \<open>post\<close> follows and
  that is the whole output.
\<close>

theorem C6_section_layout:
  assumes "read_lines F = pre @ [b] @ body @ [e] @ post"
    and "\<forall>l \<in> set pre. \<not> py_in FILE_MARKER_BEGIN l"
    and "py_in FILE_MARKER_BEGIN b"
    and "\<forall>l \<in> set body. \<not> py_in FILE_MARKER_BEGIN l \<and> \<not> py_in FILE_MARKER_END l"
    and "py_in FILE_MARKER_END e"
  shows "prefix (pre @ [FILE_MARKER_BEGIN, u @ [LF], e]) (all_writes (read_lines F) u)
       \<and> ((\<forall>l \<in> set post. \<not> py_in FILE_MARKER_BEGIN l) \<longrightarrow>
            all_writes (read_lines F) u = pre @ [FILE_MARKER_BEGIN, u @ [LF], e] @ post)"
proof -
  let ?s = "\<lparr>add_content = False, skip_line = False, update_written = True,
             written = pre @ [FILE_MARKER_BEGIN, u @ [LF], e]\<rparr>"
  from assms(1) have "e \<in> set (read_lines F)" by simp
  then have "LF \<notin> set (butlast e)" by (rule read_lines_inner)
  with assms(5) have e: "\<not> py_in FILE_MARKER_BEGIN e" using line_not_both by blast
  have "scan u (read_lines F) =
        foldl (loop_body u) (foldl (loop_body u) initial_state (pre @ [b] @ body @ [e])) post"
    by (simp add: scan_def assms(1))
  also have "\<dots> = foldl (loop_body u) ?s post"
    by (simp only: scan_section [OF assms(2) assms(3) assms(4) assms(5) e])
  finally have sc: "scan u (read_lines F) = foldl (loop_body u) ?s post" .
  have "update_written (foldl (loop_body u) ?s post)"
    by (rule foldl_update_written) simp
  then have "all_writes (read_lines F) u = written (foldl (loop_body u) ?s post)"
    by (simp add: all_writes_def sc)
  moreover have "prefix (written ?s) (written (foldl (loop_body u) ?s post))"
    by (rule foldl_written_prefix)
  ultimately have 1: "prefix (pre @ [FILE_MARKER_BEGIN, u @ [LF], e]) (all_writes (read_lines F) u)"
    by simp
  have 2: "all_writes (read_lines F) u = pre @ [FILE_MARKER_BEGIN, u @ [LF], e] @ post"
    if "\<forall>l \<in> set post. \<not> py_in FILE_MARKER_BEGIN l"
    unfolding assms(1) using assms(2-5) e that by (intro all_writes_section) simp_all
  from 1 2 show ?thesis by blast
qed

theorem C6_section_layout_witness:
  "read_lines (''x'' @ [LF] @ ''  '' @ FILE_MARKER_BEGIN @ ''old'' @ [LF] @ FILE_MARKER_END @ ''y'' @ [LF])
     = [''x'' @ [LF]] @ [''  '' @ FILE_MARKER_BEGIN] @ [''old'' @ [LF]] @ [FILE_MARKER_END]
       @ [''y'' @ [LF]]
   \<and> list_all (\<lambda>l. \<not> py_in FILE_MARKER_BEGIN l) [''x'' @ [LF]]
   \<and> py_in FILE_MARKER_BEGIN (''  '' @ FILE_MARKER_BEGIN)
   \<and> list_all (\<lambda>l. \<not> py_in FILE_MARKER_BEGIN l \<and> \<not> py_in FILE_MARKER_END l) [''old'' @ [LF]]
   \<and> py_in FILE_MARKER_END FILE_MARKER_END
   \<and> list_all (\<lambda>l. \<not> py_in FILE_MARKER_BEGIN l) [''y'' @ [LF]]
   \<and> all_writes (read_lines (''x'' @ [LF] @ ''  '' @ FILE_MARKER_BEGIN @ ''old'' @ [LF]
                               @ FILE_MARKER_END @ ''y'' @ [LF])) ''new''
     = [''x'' @ [LF]] @ [FILE_MARKER_BEGIN, ''new'' @ [LF], FILE_MARKER_END] @ [''y'' @ [LF]]"
proof -
  let ?F = "''x'' @ [LF] @ ''  '' @ FILE_MARKER_BEGIN @ ''old'' @ [LF] @ FILE_MARKER_END @ ''y'' @ [LF]"
  have h1: "read_lines ?F = [''x'' @ [LF]] @ [''  '' @ FILE_MARKER_BEGIN] @ [''old'' @ [LF]]
              @ [FILE_MARKER_END] @ [''y'' @ [LF]]"
    by code_simp
  have h2: "\<forall>l \<in> set [''x'' @ [LF]]. \<not> py_in FILE_MARKER_BEGIN l" by code_simp
  have h3: "py_in FILE_MARKER_BEGIN (''  '' @ FILE_MARKER_BEGIN)" by code_simp
  have h4: "\<forall>l \<in> set [''old'' @ [LF]]. \<not> py_in FILE_MARKER_BEGIN l \<and> \<not> py_in FILE_MARKER_END l"
    by code_simp
  have h5: "py_in FILE_MARKER_END FILE_MARKER_END" by code_simp
  have h6: "\<forall>l \<in> set [''y'' @ [LF]]. \<not> py_in FILE_MARKER_BEGIN l" by code_simp
  from C6_section_layout [OF h1 h2 h3 h4 h5, of "''new''"] h1 h2 h3 h4 h5 h6
  show ?thesis unfolding list_all_iff by blast
qed

theorem C6_begin_line_not_copied:
  "all_writes (read_lines (''x'' @ FILE_MARKER_BEGIN @ ''old'' @ [LF] @ FILE_MARKER_END)) ''new''
     = [FILE_MARKER_BEGIN, ''new'' @ [LF], FILE_MARKER_END]
   \<and> ''x'' @ FILE_MARKER_BEGIN \<in> set (read_lines (''x'' @ FILE_MARKER_BEGIN @ ''old'' @ [LF] @ FILE_MARKER_END))
   \<and> ''x'' @ FILE_MARKER_BEGIN \<notin> set (all_writes
         (read_lines (''x'' @ FILE_MARKER_BEGIN @ ''old'' @ [LF] @ FILE_MARKER_END)) ''new'')"
  by code_simp

text \<open>
  C7 (amended). At the grain of the file operations the source performs (open, create the
  temporary file, each \<open>write\<close>, the move, each taken as one step): every \<open>write\<close> goes
  to the temporary file; a run cut short before the move leaves an existing target with
  its content, and leaves a target that did not exist either absent or created empty (by
  the open with mode \<open>a+\<close>); the complete run leaves the target with the new content.
\<close>

theorem C7_target_only_moved:
  assumes "tmp \<noteq> p" and "n < length (update_file_ops fs tmp p u)"
  shows "(foldl apply_op fs (take n (update_file_ops fs tmp p u)) p = fs p
          \<or> (fs p = None \<and> foldl apply_op fs (take n (update_file_ops fs tmp p u)) p = Some []))
       \<and> update_file fs tmp p u p = Some (concat (all_writes (input_lines_of fs p) u))"
proof -
  let ?ops = "update_file_ops fs tmp p u"
  let ?front = "(case fs p of None \<Rightarrow> [OpenCreate p] | Some c \<Rightarrow> [])
     @ [NewTempFile tmp] @ map (Write tmp) (all_writes (input_lines_of fs p) u)"
  have ops: "?ops = ?front @ [Move tmp p]" by (simp add: update_file_ops_def)
  from assms(2) have "n < length (?front @ [Move tmp p])" by (simp only: ops)
  then have "take n (?front @ [Move tmp p]) = take n ?front" by (rule take_front)
  then have "take n ?ops = take n ?front" by (simp only: ops)
  moreover have "\<forall>op \<in> set (take n ?front).
      op = OpenCreate p \<or> op = NewTempFile tmp \<or> (\<exists>s. op = Write tmp s)"
  proof
    fix op assume "op \<in> set (take n ?front)"
    then have "op \<in> set ?front" by (rule in_set_takeD)
    then show "op = OpenCreate p \<or> op = NewTempFile tmp \<or> (\<exists>s. op = Write tmp s)"
      by (auto split: option.splits)
  qed
  ultimately have "foldl apply_op fs (take n ?ops) p = fs p
      \<or> (fs p = None \<and> foldl apply_op fs (take n ?ops) p = Some [])"
    using before_move_target [OF assms(1), of "take n ?front" fs] by simp
  moreover have "update_file fs tmp p u p = Some (concat (all_writes (input_lines_of fs p) u))"
    using assms(1) by (simp add: update_file_result)
  ultimately show ?thesis by blast
qed

theorem C7_target_only_moved_witness:
  "''/tmp/tmp0'' \<noteq> ''device.bazelrc''
   \<and> (3::nat) < length (update_file_ops [''device.bazelrc'' \<mapsto> ''old'' @ [LF]] ''/tmp/tmp0''
                         ''device.bazelrc'' ''new'')
   \<and> foldl apply_op [''device.bazelrc'' \<mapsto> ''old'' @ [LF]]
        (take 3 (update_file_ops [''device.bazelrc'' \<mapsto> ''old'' @ [LF]] ''/tmp/tmp0''
                   ''device.bazelrc'' ''new'')) ''device.bazelrc''
      = Some (''old'' @ [LF])
   \<and> update_file [''device.bazelrc'' \<mapsto> ''old'' @ [LF]] ''/tmp/tmp0'' ''device.bazelrc'' ''new''
        ''device.bazelrc''
      = Some (concat [''old'' @ [LF], FILE_MARKER_BEGIN, ''new'' @ [LF], FILE_MARKER_END])"
proof -
  let ?fs = "[''device.bazelrc'' \<mapsto> ''old'' @ [LF]]"
  have l: "input_lines_of ?fs ''device.bazelrc'' = read_lines (''old'' @ [LF])"
    by (simp add: input_lines_of_def)
  have w0: "all_writes (read_lines (''old'' @ [LF])) ''new'' =
           [''old'' @ [LF], FILE_MARKER_BEGIN, ''new'' @ [LF], FILE_MARKER_END]"
    by code_simp
  have w: "all_writes (input_lines_of ?fs ''device.bazelrc'') ''new'' =
           [''old'' @ [LF], FILE_MARKER_BEGIN, ''new'' @ [LF], FILE_MARKER_END]"
    by (simp only: l w0)
  have h1: "''/tmp/tmp0'' \<noteq> ''device.bazelrc''" by simp
  have h2: "(3::nat) < length (update_file_ops ?fs ''/tmp/tmp0'' ''device.bazelrc'' ''new'')"
    by (simp only: update_file_ops_def w) simp
  have f: "?fs ''device.bazelrc'' = Some (''old'' @ [LF])" by simp
  note r = C7_target_only_moved [OF h1 h2, unfolded w f]
  from r h1 h2 show ?thesis by auto
qed

theorem C7_missing_target_created_first:
  "foldl apply_op Map.empty
     (take 1 (update_file_ops Map.empty ''/tmp/tmp0'' ''device.bazelrc'' ''new'')) ''device.bazelrc''
     = Some []
   \<and> (Map.empty :: filesystem) ''device.bazelrc'' = None
   \<and> (1::nat) < length (update_file_ops Map.empty ''/tmp/tmp0'' ''device.bazelrc'' ''new'')"
  by (simp add: update_file_ops_def all_writes_def)

text \<open>
  C10. A line is a begin-marker (end-marker) line exactly when the marker constant, line
  break included, occurs in it, whatever surrounds it: the loop then does not copy a
  begin-marker line and starts skipping, and copies an end-marker line and stops
  skipping. A line without a line break is never a marker line and is handled as an
  ordinary line; a file that consists of the begin-marker text without its line break gets
  a new section appended behind it.
\<close>

theorem C10_marker_recognition:
  "py_in FILE_MARKER_BEGIN (p @ FILE_MARKER_BEGIN @ s)
   \<and> py_in FILE_MARKER_END (p @ FILE_MARKER_END @ s)
   \<and> loop_body u st (p @ FILE_MARKER_BEGIN @ s) =
       (flush u st)\<lparr>skip_line := True, add_content := True\<rparr>
   \<and> (LF \<notin> set p \<longrightarrow>
        loop_body u st (p @ FILE_MARKER_END) =
          (flush u st)\<lparr>skip_line := False, written := written (flush u st) @ [p @ FILE_MARKER_END]\<rparr>)
   \<and> (LF \<notin> set l \<longrightarrow>
        \<not> py_in FILE_MARKER_BEGIN l \<and> \<not> py_in FILE_MARKER_END l
        \<and> loop_body u st l =
            (if skip_line st then flush u st
             else (flush u st)\<lparr>written := written (flush u st) @ [l]\<rparr>))
   \<and> new_content (butlast FILE_MARKER_BEGIN) u =
       butlast FILE_MARKER_BEGIN @ FILE_MARKER_BEGIN @ u @ [LF] @ FILE_MARKER_END"
proof -
  have 1: "py_in FILE_MARKER_BEGIN (p @ FILE_MARKER_BEGIN @ s)"
    and 2: "py_in FILE_MARKER_END (p @ FILE_MARKER_END @ s)"
    by (auto simp: py_in_def sublist_def)
  have 3: "loop_body u st (p @ FILE_MARKER_BEGIN @ s) =
       (flush u st)\<lparr>skip_line := True, add_content := True\<rparr>"
    using 1 by (rule loop_body_begin)
  have 4: "loop_body u st (p @ FILE_MARKER_END) =
          (flush u st)\<lparr>skip_line := False, written := written (flush u st) @ [p @ FILE_MARKER_END]\<rparr>"
    if "LF \<notin> set p"
  proof -
    have e: "py_in FILE_MARKER_END (p @ FILE_MARKER_END)"
      by (auto simp: py_in_def)
    have "FILE_MARKER_END \<noteq> []" by (simp add: FILE_MARKER_END_def)
    then have "butlast (p @ FILE_MARKER_END) = p @ butlast FILE_MARKER_END"
      by (simp add: butlast_append)
    with that have "LF \<notin> set (butlast (p @ FILE_MARKER_END))"
      by (simp add: butlast_markers_no_LF)
    with e have "\<not> py_in FILE_MARKER_BEGIN (p @ FILE_MARKER_END)"
      using line_not_both by blast
    then show ?thesis using e by (rule loop_body_end)
  qed
  have 5: "\<not> py_in FILE_MARKER_BEGIN l \<and> \<not> py_in FILE_MARKER_END l
        \<and> loop_body u st l =
            (if skip_line st then flush u st
             else (flush u st)\<lparr>written := written (flush u st) @ [l]\<rparr>)"
    if "LF \<notin> set l"
    using no_LF_no_marker [OF that] by (simp add: loop_body_plain)
  have r: "read_lines (butlast FILE_MARKER_BEGIN) = [butlast FILE_MARKER_BEGIN]"
    by code_simp
  have "\<forall>l \<in> set [butlast FILE_MARKER_BEGIN]. \<not> py_in FILE_MARKER_BEGIN l"
    using no_LF_no_marker [OF butlast_markers_no_LF(1)] by simp
  then have "all_writes [butlast FILE_MARKER_BEGIN] u =
      [butlast FILE_MARKER_BEGIN] @ [FILE_MARKER_BEGIN, u @ [LF], FILE_MARKER_END]"
    by (rule all_writes_no_begin)
  then have 6: "new_content (butlast FILE_MARKER_BEGIN) u =
       butlast FILE_MARKER_BEGIN @ FILE_MARKER_BEGIN @ u @ [LF] @ FILE_MARKER_END"
    by (simp add: new_content_def r)
  from 1 2 3 4 5 6 show ?thesis by blast
qed

theorem C10_marker_recognition_witness:
  "LF \<notin> set ''# ''
   \<and> loop_body ''new'' initial_state (''# '' @ FILE_MARKER_END) =
       (flush ''new'' initial_state)\<lparr>skip_line := False,
          written := written (flush ''new'' initial_state) @ [''# '' @ FILE_MARKER_END]\<rparr>
   \<and> LF \<notin> set ''### GENERATED SECTION - DO NOT MODIFY - BEGIN ###''
   \<and> \<not> py_in FILE_MARKER_BEGIN ''### GENERATED SECTION - DO NOT MODIFY - BEGIN ###''
   \<and> loop_body ''new'' initial_state ''### GENERATED SECTION - DO NOT MODIFY - BEGIN ###'' =
       (flush ''new'' initial_state)\<lparr>written := written (flush ''new'' initial_state)
          @ [''### GENERATED SECTION - DO NOT MODIFY - BEGIN ###'']\<rparr>"
proof -
  have h1: "LF \<notin> set ''# ''" by (simp add: LF_def)
  have h2: "LF \<notin> set ''### GENERATED SECTION - DO NOT MODIFY - BEGIN ###''" by (simp add: LF_def)
  have s: "\<not> skip_line initial_state" by (simp add: initial_state_def)
  from C10_marker_recognition [of "''# ''" "[]" "''new''" initial_state
      "''### GENERATED SECTION - DO NOT MODIFY - BEGIN ###''"] h1 h2 s
  show ?thesis by simp
qed

section \<open>The claims about the download guard\<close>



text \<open>
  C9. \<open>_get_url\<close> returns \<open>None\<close> exactly when \<open>url_fmt\<close> is set, both formatting calls
  return, \<open>build_id\<close> is unset (absent or empty) and the URL formatted with the real
  \<open>build_id\<close> differs from the one formatted with the placeholder. When the formatted
  text does not depend on \<open>build_id\<close>, the URL is returned, also without a build id.
\<close>

theorem C9_get_url_none:
  "(get_url format quote self remote_filename = Inr None \<longleftrightarrow>
      (\<exists>f url url_with_fake_id.
          url_fmt self = Some f
        \<and> format f (build_id self) (build_target self) (quote remote_filename) = Inr url
        \<and> format f (Some FAKE_BUILD_ID) (build_target self) (quote remote_filename)
            = Inr url_with_fake_id
        \<and> \<not> truthy (build_id self) \<and> url \<noteq> url_with_fake_id))
   \<and> (url_fmt self = Some f
        \<and> (\<forall>b. format f b (build_target self) (quote remote_filename) = Inr url)
      \<longrightarrow> get_url format quote self remote_filename = Inr (Some url))"
  by (auto simp: get_url_def split: option.splits sum.splits)

theorem C9_get_url_none_witness:
  "url_fmt (example_setter\<lparr>url_fmt := Some ''https://ci/latest/{build_target}/{filename}''\<rparr>)
     = Some ''https://ci/latest/{build_target}/{filename}''
   \<and> (\<forall>b. simple_format ''https://ci/latest/{build_target}/{filename}'' b
          (build_target (example_setter\<lparr>url_fmt := Some ''https://ci/latest/{build_target}/{filename}''\<rparr>))
          (quote_slash ''gki/boot.img'')
        = Inr ''https://ci/latest/kernel_aarch64/gki%2Fboot.img'')
   \<and> \<not> truthy (build_id (example_setter\<lparr>url_fmt := Some ''https://ci/latest/{build_target}/{filename}''\<rparr>))
   \<and> get_url simple_format quote_slash
         (example_setter\<lparr>url_fmt := Some ''https://ci/latest/{build_target}/{filename}''\<rparr>)
         ''gki/boot.img''
       = Inr (Some ''https://ci/latest/kernel_aarch64/gki%2Fboot.img'')
   \<and> \<not> truthy (build_id example_setter)
   \<and> get_url simple_format quote_slash example_setter ''gki/boot.img'' = Inr None"
proof -
  let ?f = "''https://ci/latest/{build_target}/{filename}''"
  let ?s = "example_setter\<lparr>url_fmt := Some ?f\<rparr>"
  have h1: "url_fmt ?s = Some ?f" by simp
  have h2: "\<forall>b. simple_format ?f b (build_target ?s) (quote_slash ''gki/boot.img'')
              = Inr ''https://ci/latest/kernel_aarch64/gki%2Fboot.img''"
    by (simp add: simple_format_def field_value_def prepend_def py_str_def quote_slash_def
        example_setter_def)
  have t: "\<not> truthy (build_id ?s)" "\<not> truthy (build_id example_setter)"
    by (simp_all add: example_setter_def truthy_def)
  have n: "get_url simple_format quote_slash example_setter ''gki/boot.img'' = Inr None"
    by code_simp
  from C9_get_url_none [where format = simple_format and quote = quote_slash and self = ?s
      and f = ?f and remote_filename = "''gki/boot.img''"
      and url = "''https://ci/latest/kernel_aarch64/gki%2Fboot.img''"] h1 h2
  have "get_url simple_format quote_slash ?s ''gki/boot.img''
          = Inr (Some ''https://ci/latest/kernel_aarch64/gki%2Fboot.img'')"
    by blast
  with h1 h2 t n show ?thesis by blast
qed

end
